theory Spec2Isabelle
  imports Complex_Main
begin

section \<open>Python errors\<close>

text \<open>
  The notebooks are Python with numpy. An exception ends the computation; it is a value
  of the model. Reals stand for Python and numpy floats: arithmetic is exact. Where numpy
  would answer with a warning and \<^verbatim>\<open>inf\<close> or \<^verbatim>\<open>nan\<close> (a division by zero, a root of
  a negative number), which are no real numbers, the model answers \<open>FloatingPointError\<close>.
\<close>

datatype error = IndexError | ValueError | ZeroDivisionError | FloatingPointError

section \<open>Reward to go (policy-gradient notebook)\<close>

text \<open>
  \<^verbatim>\<open>
  def rtg(episode_rs):
      n = len(episode_rs)
      rtgs = [0] * n
      for i in reversed(range(n)):
          rtgs[i] = episode_rs[i] + (rtgs[i+1] if i+1 < n else 0)
      return rtgs
  \<close>
  The loop body is \<open>rtg_body\<close>; every index it reads or writes is below \<open>n\<close>, so no
  access of the source is out of range.
\<close>

definition rtg_body :: "real list \<Rightarrow> nat \<Rightarrow> real list \<Rightarrow> real list" where
  "rtg_body episode_rs i rtgs =
     rtgs[i := episode_rs ! i + (if i + 1 < length episode_rs then rtgs ! (i + 1) else 0)]"

definition rtg :: "real list \<Rightarrow> real list" where
  "rtg episode_rs =
     (let n = length episode_rs;
          rtgs = replicate n 0
      in fold (rtg_body episode_rs) (rev [0..<n]) rtgs)"

section \<open>numpy arrays and the random generator\<close>

text \<open>
  A two-dimensional numpy array is the list of its rows. Indices are naturals (states and
  actions of a discrete environment), so only an index past the end raises.
\<close>

type_synonym state = nat
type_synonym action = nat
type_synonym table = "real list list"
type_synonym transition = "state \<times> action \<times> real"

definition bindE :: "error + 'a \<Rightarrow> ('a \<Rightarrow> error + 'b) \<Rightarrow> error + 'b" where
  "bindE m f = (case m of Inl err \<Rightarrow> Inl err | Inr x \<Rightarrow> f x)"

primrec foldE :: "('a \<Rightarrow> 's \<Rightarrow> error + 's) \<Rightarrow> 'a list \<Rightarrow> 's \<Rightarrow> error + 's" where
  "foldE f [] st = Inr st"
| "foldE f (x # xs) st = bindE (f x st) (foldE f xs)"

definition np_zeros :: "nat \<Rightarrow> nat \<Rightarrow> table" where
  "np_zeros m n = replicate m (replicate n 0)"

definition np_full :: "nat \<Rightarrow> nat \<Rightarrow> real \<Rightarrow> table" where
  "np_full m n v = replicate m (replicate n v)"

definition np_row :: "table \<Rightarrow> nat \<Rightarrow> error + real list" where
  \<comment> \<open>\<^verbatim>\<open>M[i, :]\<close>\<close>
  "np_row M i = (if i < length M then Inr (M ! i) else Inl IndexError)"

definition np_get :: "table \<Rightarrow> nat \<Rightarrow> nat \<Rightarrow> error + real" where
  \<comment> \<open>\<^verbatim>\<open>M[i, j]\<close>\<close>
  "np_get M i j =
     (if i < length M \<and> j < length (M ! i) then Inr (M ! i ! j) else Inl IndexError)"

definition np_set :: "table \<Rightarrow> nat \<Rightarrow> nat \<Rightarrow> real \<Rightarrow> error + table" where
  \<comment> \<open>\<^verbatim>\<open>M[i, j] = v\<close>\<close>
  "np_set M i j v =
     (if i < length M \<and> j < length (M ! i) then Inr (M[i := (M ! i)[j := v]])
      else Inl IndexError)"

definition np_fill_row :: "table \<Rightarrow> nat \<Rightarrow> real \<Rightarrow> error + table" where
  \<comment> \<open>\<^verbatim>\<open>M[i, :] = v\<close>: the row keeps its length\<close>
  "np_fill_row M i v =
     (if i < length M then Inr (M[i := replicate (length (M ! i)) v]) else Inl IndexError)"

definition np_assign_rows_col :: "table \<Rightarrow> nat list \<Rightarrow> nat \<Rightarrow> real \<Rightarrow> error + table" where
  \<comment> \<open>\<^verbatim>\<open>M[idxs, j] = v\<close> with a list of row indices: every listed row gets \<open>v\<close> in
      column \<open>j\<close>; one index out of range raises\<close>
  "np_assign_rows_col M idxs j v =
     (if \<forall>i \<in> set idxs. i < length M \<and> j < length (M ! i)
      then Inr (fold (\<lambda>i M'. M'[i := (M' ! i)[j := v]]) idxs M)
      else Inl IndexError)"

definition np_max :: "real list \<Rightarrow> error + real" where
  \<comment> \<open>\<^verbatim>\<open>np.max(xs)\<close> and the builtin \<^verbatim>\<open>max(xs)\<close>: the empty sequence raises\<close>
  "np_max xs = (case xs of [] \<Rightarrow> Inl ValueError | x # ys \<Rightarrow> Inr (fold max ys x))"

primrec first_index :: "real \<Rightarrow> real list \<Rightarrow> nat" where
  "first_index v [] = 0"
| "first_index v (x # xs) = (if x = v then 0 else Suc (first_index v xs))"

definition np_argmax :: "real list \<Rightarrow> error + nat" where
  \<comment> \<open>\<^verbatim>\<open>np.argmax(xs)\<close>: the first index holding the maximum\<close>
  "np_argmax xs =
     (case xs of [] \<Rightarrow> Inl ValueError | x # ys \<Rightarrow> Inr (first_index (fold max ys x) xs))"

definition np_where_eq :: "real list \<Rightarrow> real \<Rightarrow> nat list" where
  \<comment> \<open>\<^verbatim>\<open>np.where(xs == v)[0]\<close>: the indices holding \<open>v\<close>, in increasing order\<close>
  "np_where_eq xs v = filter (\<lambda>j. xs ! j = v) [0..<length xs]"

text \<open>
  One-dimensional arrays: elementwise operations with broadcasting (equal lengths pair up,
  a length-one operand is stretched, anything else raises), indexing, update. A one-row
  matrix is used as its row.
\<close>

definition np_broadcast :: "real list \<Rightarrow> real list \<Rightarrow> error + (real \<times> real) list" where
  "np_broadcast xs ys =
     (if length xs = length ys then Inr (zip xs ys)
      else if length xs = 1 then Inr (map (\<lambda>y. (hd xs, y)) ys)
      else if length ys = 1 then Inr (map (\<lambda>x. (x, hd ys)) xs)
      else Inl ValueError)"

definition np_add :: "real list \<Rightarrow> real list \<Rightarrow> error + real list" where
  "np_add xs ys = bindE (np_broadcast xs ys) (\<lambda>ps. Inr (map (\<lambda>(x, y). x + y) ps))"


definition np_divide :: "real list \<Rightarrow> real list \<Rightarrow> error + real list" where
  "np_divide xs ys =
     bindE (np_broadcast xs ys) (\<lambda>ps.
       if \<exists>p \<in> set ps. snd p = 0 then Inl FloatingPointError
       else Inr (map (\<lambda>(x, y). x / y) ps))"

definition py_index :: "real list \<Rightarrow> nat \<Rightarrow> error + real" where
  \<comment> \<open>\<^verbatim>\<open>xs[i]\<close>\<close>
  "py_index xs i = (if i < length xs then Inr (xs ! i) else Inl IndexError)"

definition np_add_at :: "real list \<Rightarrow> nat \<Rightarrow> real \<Rightarrow> error + real list" where
  \<comment> \<open>\<^verbatim>\<open>xs[i] += v\<close>\<close>
  "np_add_at xs i v = (if i < length xs then Inr (xs[i := xs ! i + v]) else Inl IndexError)"

text \<open>
  The generator \<^verbatim>\<open>np.random\<close> is not code of the notebooks: it is a parameter, a record
  of samplers that each take the generator state and return the draw with the next state.
\<close>

record 'g rng =
  randint :: "'g \<Rightarrow> nat \<Rightarrow> nat \<times> 'g"
  choice_p :: "'g \<Rightarrow> real list \<Rightarrow> nat \<times> 'g"
  randn :: "'g \<Rightarrow> real \<times> 'g"
  normal :: "'g \<Rightarrow> real \<Rightarrow> real \<times> 'g"
  beta :: "'g \<Rightarrow> real \<Rightarrow> real \<Rightarrow> real \<times> 'g"
  rand :: "'g \<Rightarrow> real \<times> 'g"

definition rng_ok :: "'g rng \<Rightarrow> bool" where
  \<comment> \<open>the uniform index drawn below \<open>n\<close> is below \<open>n\<close>\<close>
  "rng_ok rng = (\<forall>g n. 0 < n \<longrightarrow> fst (randint rng g n) < n)"

definition np_choice_n :: "'g rng \<Rightarrow> 'g \<Rightarrow> nat \<Rightarrow> error + nat \<times> 'g" where
  \<comment> \<open>\<^verbatim>\<open>np.random.choice(n)\<close>\<close>
  "np_choice_n rng g n = (if n = 0 then Inl ValueError else Inr (randint rng g n))"

definition np_choice :: "'g rng \<Rightarrow> 'g \<Rightarrow> nat list \<Rightarrow> error + nat \<times> 'g" where
  \<comment> \<open>\<^verbatim>\<open>np.random.choice(xs)\<close>: the element at a uniform index\<close>
  "np_choice rng g xs =
     (if xs = [] then Inl ValueError
      else case randint rng g (length xs) of (k, g') \<Rightarrow> Inr (xs ! k, g'))"

definition valid_p :: "nat \<Rightarrow> real list \<Rightarrow> bool" where
  \<comment> \<open>what \<^verbatim>\<open>np.random.choice(range(n), p = p)\<close> accepts: a non-empty range, one
      probability per element, none negative, summing to one (exactly, here)\<close>
  "valid_p n p = (n \<noteq> 0 \<and> length p = n \<and> (\<forall>x \<in> set p. 0 \<le> x) \<and> sum_list p = 1)"

definition np_choice_p :: "'g rng \<Rightarrow> 'g \<Rightarrow> nat \<Rightarrow> real list \<Rightarrow> error + nat \<times> 'g" where
  "np_choice_p rng g n p = (if valid_p n p then Inr (choice_p rng g p) else Inl ValueError)"

primrec draws :: "('g \<Rightarrow> real \<times> 'g) \<Rightarrow> nat \<Rightarrow> 'g \<Rightarrow> real list \<times> 'g" where
  \<comment> \<open>\<open>n\<close> scalar draws in a row, as a vectorised sampler makes them\<close>
  "draws f 0 g = ([], g)"
| "draws f (Suc n) g = (case f g of (x, g') \<Rightarrow> case draws f n g' of (xs, g'') \<Rightarrow> (x # xs, g''))"

section \<open>The environment\<close>

text \<open>
  A gym environment is an object with hidden state: \<^verbatim>\<open>reset()\<close> and \<^verbatim>\<open>step(a)\<close>
  return an observation and change that state. The environment is a parameter too.
\<close>

record 'e env =
  nS :: nat
  nA :: nat
  reset :: "'e \<Rightarrow> state \<times> 'e"
  step :: "'e \<Rightarrow> action \<Rightarrow> (state \<times> real \<times> bool) \<times> 'e"

section \<open>Monte Carlo value estimation (Monte Carlo notebook)\<close>

text \<open>
  \<^verbatim>\<open>
  def episode(env = gym.make('FrozenLake-v0')):
      R = 0
      s = env.reset()
      state_trace = [s]
      while True:
          (s, r, d, _) = env.step(np.random.choice(env.action_space.n))
          state_trace += [s]
          R += r
          if d: break
      return state_trace, R
  \<close>
  The loop has no bound: a run that never ends is the value \<open>None\<close>.
\<close>

partial_function (option) episode_loop ::
  "'e env \<Rightarrow> 'g rng \<Rightarrow> 'e \<Rightarrow> 'g \<Rightarrow> state list \<Rightarrow> real
     \<Rightarrow> (error + (state list \<times> real) \<times> 'e \<times> 'g) option" where
  "episode_loop env rng e g state_trace R =
     (case np_choice_n rng g (nA env) of
        Inl err \<Rightarrow> Some (Inl err)
      | Inr (a, g') \<Rightarrow>
          (case step env e a of
             ((s, r, d), e') \<Rightarrow>
               if d then Some (Inr ((state_trace @ [s], R + r), e', g'))
               else episode_loop env rng e' g' (state_trace @ [s]) (R + r)))"

definition episode ::
  "'e env \<Rightarrow> 'g rng \<Rightarrow> 'e \<Rightarrow> 'g \<Rightarrow> (error + (state list \<times> real) \<times> 'e \<times> 'g) option" where
  "episode env rng e g = (case reset env e of (s, e0) \<Rightarrow> episode_loop env rng e0 g [s] 0)"

text \<open>
  \<^verbatim>\<open>
  rewards = np.zeros((env.nS, neps))
  visits = np.zeros((env.nS, neps))
  for i in range(neps):
      state_trace, R = episode()
      rewards[state_trace, i] = R
      visits[state_trace, i] = 1
  \<close>
\<close>

definition mc_iteration ::
  "'e env \<Rightarrow> 'g rng \<Rightarrow> nat \<Rightarrow> table \<times> table \<times> 'e \<times> 'g
     \<Rightarrow> (error + table \<times> table \<times> 'e \<times> 'g) option" where
  "mc_iteration env rng i st =
     (case st of (rewards, visits, e, g) \<Rightarrow>
        (case episode env rng e g of
           None \<Rightarrow> None
         | Some (Inl err) \<Rightarrow> Some (Inl err)
         | Some (Inr ((state_trace, R), e', g')) \<Rightarrow>
             Some (bindE (np_assign_rows_col rewards state_trace i R) (\<lambda>rewards'.
                   bindE (np_assign_rows_col visits state_trace i 1) (\<lambda>visits'.
                   Inr (rewards', visits', e', g'))))))"

primrec mc_loop ::
  "'e env \<Rightarrow> 'g rng \<Rightarrow> nat list \<Rightarrow> table \<times> table \<times> 'e \<times> 'g
     \<Rightarrow> (error + table \<times> table \<times> 'e \<times> 'g) option" where
  "mc_loop env rng [] st = Some (Inr st)"
| "mc_loop env rng (i # rest) st =
     (case mc_iteration env rng i st of
        None \<Rightarrow> None
      | Some (Inl err) \<Rightarrow> Some (Inl err)
      | Some (Inr st') \<Rightarrow> mc_loop env rng rest st')"

definition mc_estimate ::
  "'e env \<Rightarrow> 'g rng \<Rightarrow> nat \<Rightarrow> 'e \<Rightarrow> 'g \<Rightarrow> (error + table \<times> table \<times> 'e \<times> 'g) option" where
  "mc_estimate env rng neps e g =
     mc_loop env rng [0..<neps] (np_zeros (nS env) neps, np_zeros (nS env) neps, e, g)"

text \<open>
  The observations of an episode, step by step, without the loop: \<open>ep_next\<close> is one
  pass through the loop body on the environment and generator, \<open>ep_obs k\<close> is what the
  \<open>k\<close>-th call of \<^verbatim>\<open>env.step\<close> returns (counting from 0) when the loop gets that far.
\<close>

definition ep_next :: "'e env \<Rightarrow> 'g rng \<Rightarrow> 'e \<times> 'g \<Rightarrow> 'e \<times> 'g" where
  "ep_next env rng c =
     (case c of (e, g) \<Rightarrow>
        case randint rng g (nA env) of (a, g') \<Rightarrow> (snd (step env e a), g'))"

definition ep_obs :: "'e env \<Rightarrow> 'g rng \<Rightarrow> nat \<Rightarrow> 'e \<times> 'g \<Rightarrow> state \<times> real \<times> bool" where
  "ep_obs env rng k c =
     (case (ep_next env rng ^^ k) c of (e, g) \<Rightarrow>
        fst (step env e (fst (randint rng g (nA env)))))"

section \<open>Fixtures for evaluation\<close>

text \<open>
  A deterministic chain \<open>0 \<rightarrow> 1 \<rightarrow> 2\<close> whose two actions act alike, with reward 1 on
  every step, done on reaching state 2; an environment that never signals done; a
  generator whose state counts the draws and shapes them; and a generator whose draws are
  constants. The hidden state of the chain is the current position.
\<close>

definition chain_env :: "nat env" where
  "chain_env = \<lparr>nS = 3, nA = 2, reset = (\<lambda>e. (0, 0)),
                 step = (\<lambda>e a. ((Suc e, 1, 2 \<le> Suc e), Suc e))\<rparr>"

definition endless_env :: "unit env" where
  "endless_env = \<lparr>nS = 1, nA = 1, reset = (\<lambda>e. (0, ())),
                   step = (\<lambda>e a. ((0, 0, False), ()))\<rparr>"

definition counter_rng :: "nat rng" where
  "counter_rng = \<lparr>randint = (\<lambda>g n. (g mod n, Suc g)), choice_p = (\<lambda>g p. (g mod length p, Suc g)),
                   randn = (\<lambda>g. (real g, Suc g)), normal = (\<lambda>g mu. (mu + real g, Suc g)),
                   beta = (\<lambda>g a b. (a / (a + b), Suc g)), rand = (\<lambda>g. (1 / (real g + 2), Suc g))\<rparr>"

definition const_rng :: "unit rng" where
  "const_rng = \<lparr>randint = (\<lambda>g n. (0, g)), choice_p = (\<lambda>g p. (0, g)),
                 randn = (\<lambda>g. (0, g)), normal = (\<lambda>g mu. (mu, g)),
                 beta = (\<lambda>g a b. (a / (a + b), g)), rand = (\<lambda>g. (0, g))\<rparr>"

section \<open>Q-learning (Q-learning notebook)\<close>

text \<open>
  \<^verbatim>\<open>
  lr = 0.8
  gamma = .95

  def q_step(Q, env, sigma, s):
      a = np.argmax(Q[s, :] + np.random.randn(1, env.nA) * sigma)
      ss, r, d, _ = env.step(a)
      delta = r + gamma * np.max(Q[ss,:]) - Q[s,a]
      Q[s, a] = Q[s, a] + lr * delta
      return Q, ss, r, d
  \<close>
  \<open>q_select\<close> is the first line, the choice of the action.
\<close>

definition lr :: real where
  "lr = 8 / 10"

definition gamma :: real where
  "gamma = 95 / 100"

definition q_select ::
  "table \<Rightarrow> 'e env \<Rightarrow> 'g rng \<Rightarrow> real \<Rightarrow> state \<Rightarrow> 'g \<Rightarrow> error + action \<times> 'g" where
  "q_select Q env rng sigma s g =
     bindE (np_row Q s) (\<lambda>row.
       case draws (randn rng) (nA env) g of
         (noise, g') \<Rightarrow>
           bindE (np_add row (map (\<lambda>z. z * sigma) noise)) (\<lambda>noisy.
           bindE (np_argmax noisy) (\<lambda>a. Inr (a, g'))))"

definition q_step ::
  "table \<Rightarrow> 'e env \<Rightarrow> 'g rng \<Rightarrow> real \<Rightarrow> state \<Rightarrow> 'e \<Rightarrow> 'g
     \<Rightarrow> error + table \<times> state \<times> real \<times> bool \<times> 'e \<times> 'g" where
  "q_step Q env rng sigma s e g =
     bindE (q_select Q env rng sigma s g) (\<lambda>(a, g').
       case step env e a of
         ((ss, r, d), e') \<Rightarrow>
           bindE (np_row Q ss) (\<lambda>row'.
           bindE (np_max row') (\<lambda>m.
           bindE (np_get Q s a) (\<lambda>q.
           let delta = r + gamma * m - q in
           bindE (np_set Q s a (q + lr * delta)) (\<lambda>Q'.
           Inr (Q', ss, r, d, e', g'))))))"

text \<open>
  \<^verbatim>\<open>
  Q = np.zeros((env.nS, env.nA))
  for i in range(neps):
      s = env.reset()
      rTot = 0
      for _ in range(nsteps):
          Q, s, r, d = q_step(Q, env, 1 / (i + 1), s)
          rTot +=r
          if(d):
              break
      rList.append(rTot)
  \<close>
  \<open>q_episode\<close> is the inner loop, by recursion on the steps that remain.
\<close>

primrec q_episode ::
  "'e env \<Rightarrow> 'g rng \<Rightarrow> real \<Rightarrow> nat \<Rightarrow> table \<times> state \<times> real \<times> 'e \<times> 'g
     \<Rightarrow> error + table \<times> state \<times> real \<times> 'e \<times> 'g" where
  "q_episode env rng sigma 0 st = Inr st"
| "q_episode env rng sigma (Suc n) st =
     (case st of (Q, s, rTot, e, g) \<Rightarrow>
        bindE (q_step Q env rng sigma s e g) (\<lambda>(Q', ss, r, d, e', g').
          if d then Inr (Q', ss, rTot + r, e', g')
          else q_episode env rng sigma n (Q', ss, rTot + r, e', g')))"

primrec q_episodes ::
  "'e env \<Rightarrow> 'g rng \<Rightarrow> nat \<Rightarrow> nat list \<Rightarrow> table \<times> real list \<times> 'e \<times> 'g
     \<Rightarrow> error + table \<times> real list \<times> 'e \<times> 'g" where
  "q_episodes env rng nsteps [] st = Inr st"
| "q_episodes env rng nsteps (i # rest) st =
     (case st of (Q, rList, e, g) \<Rightarrow>
        case reset env e of (s, e0) \<Rightarrow>
          bindE (q_episode env rng (1 / (real i + 1)) nsteps (Q, s, 0, e0, g))
            (\<lambda>(Q', s', rTot, e', g'). q_episodes env rng nsteps rest (Q', rList @ [rTot], e', g')))"

definition q_learning ::
  "'e env \<Rightarrow> 'g rng \<Rightarrow> nat \<Rightarrow> nat \<Rightarrow> 'e \<Rightarrow> 'g \<Rightarrow> error + table \<times> real list \<times> 'e \<times> 'g" where
  "q_learning env rng neps nsteps e g =
     q_episodes env rng nsteps [0..<neps] (np_zeros (nS env) (nA env), [], e, g)"

text \<open>
  An environment with a counter of the calls of \<^verbatim>\<open>step\<close> beside its hidden state:
  it answers as the environment it wraps and counts.
\<close>

definition counting :: "'e env \<Rightarrow> ('e \<times> nat) env" where
  "counting env =
     \<lparr>nS = nS env, nA = nA env,
      reset = (\<lambda>(e, c). case reset env e of (s, e') \<Rightarrow> (s, (e', c))),
      step = (\<lambda>(e, c) a. case step env e a of (obs, e') \<Rightarrow> (obs, (e', Suc c)))\<rparr>"

section \<open>Sampling an episode under a policy (Monte Carlo notebook)\<close>

text \<open>
  \<^verbatim>\<open>
  def run_game(env, policy):
      s = env.reset()
      trace = []
      while True:
          a = np.random.choice(range(env.nA), p = policy[s, :])
          ss, r, d, _ =  env.step(a)
          trace += [(s, a, r)]
          s = ss
          if d: break
      return trace
  \<close>
  The function takes no bound on the number of steps.
\<close>

partial_function (option) run_game_loop ::
  "'e env \<Rightarrow> 'g rng \<Rightarrow> table \<Rightarrow> 'e \<Rightarrow> 'g \<Rightarrow> state \<Rightarrow> transition list
     \<Rightarrow> (error + transition list \<times> 'e \<times> 'g) option" where
  "run_game_loop env rng policy e g s trace =
     (case np_row policy s of
        Inl err \<Rightarrow> Some (Inl err)
      | Inr p \<Rightarrow>
          (case np_choice_p rng g (nA env) p of
             Inl err \<Rightarrow> Some (Inl err)
           | Inr (a, g') \<Rightarrow>
               (case step env e a of
                  ((ss, r, d), e') \<Rightarrow>
                    if d then Some (Inr (trace @ [(s, a, r)], e', g'))
                    else run_game_loop env rng policy e' g' ss (trace @ [(s, a, r)]))))"

definition run_game ::
  "'e env \<Rightarrow> 'g rng \<Rightarrow> table \<Rightarrow> 'e \<Rightarrow> 'g \<Rightarrow> (error + transition list \<times> 'e \<times> 'g) option" where
  "run_game env rng policy e g =
     (case reset env e of (s, e0) \<Rightarrow> run_game_loop env rng policy e0 g s [])"

text \<open>
  The steps of a game one by one, without the loop. A configuration is the hidden state
  of the environment, the generator and the current state. \<open>rg_ok\<close> says that the row
  of the policy for the current state exists and is accepted by the sampler, \<open>rg_act\<close>
  is the action drawn, \<open>rg_next\<close> the configuration after the step, \<open>rg_trans\<close> the
  transition recorded and \<open>rg_done\<close> the flag returned; \<open>rg_cfg k\<close> is the
  configuration before step \<open>k\<close>, counting from 0.
\<close>

type_synonym ('e, 'g) config = "'e \<times> 'g \<times> state"

definition rg_ok :: "'e env \<Rightarrow> table \<Rightarrow> ('e, 'g) config \<Rightarrow> bool" where
  "rg_ok env policy c =
     (case c of (e, g, s) \<Rightarrow> s < length policy \<and> valid_p (nA env) (policy ! s))"

definition rg_act :: "'g rng \<Rightarrow> table \<Rightarrow> ('e, 'g) config \<Rightarrow> action" where
  "rg_act rng policy c = (case c of (e, g, s) \<Rightarrow> fst (choice_p rng g (policy ! s)))"

definition rg_next :: "'e env \<Rightarrow> 'g rng \<Rightarrow> table \<Rightarrow> ('e, 'g) config \<Rightarrow> ('e, 'g) config" where
  "rg_next env rng policy c =
     (case c of (e, g, s) \<Rightarrow>
        case step env e (rg_act rng policy c) of
          ((ss, r, d), e') \<Rightarrow> (e', snd (choice_p rng g (policy ! s)), ss))"

definition rg_trans :: "'e env \<Rightarrow> 'g rng \<Rightarrow> table \<Rightarrow> ('e, 'g) config \<Rightarrow> transition" where
  "rg_trans env rng policy c =
     (case c of (e, g, s) \<Rightarrow>
        (s, rg_act rng policy c, fst (snd (fst (step env e (rg_act rng policy c))))))"

definition rg_done :: "'e env \<Rightarrow> 'g rng \<Rightarrow> table \<Rightarrow> ('e, 'g) config \<Rightarrow> bool" where
  "rg_done env rng policy c =
     (case c of (e, g, s) \<Rightarrow> snd (snd (fst (step env e (rg_act rng policy c)))))"

definition rg_cfg ::
  "'e env \<Rightarrow> 'g rng \<Rightarrow> table \<Rightarrow> nat \<Rightarrow> ('e, 'g) config \<Rightarrow> ('e, 'g) config" where
  "rg_cfg env rng policy k c = (rg_next env rng policy ^^ k) c"

definition rg_start :: "'e env \<Rightarrow> 'e \<Rightarrow> 'g \<Rightarrow> ('e, 'g) config" where
  "rg_start env e g = (case reset env e of (s, e0) \<Rightarrow> (e0, g, s))"

section \<open>Fitting an epsilon-soft policy (Monte Carlo notebook)\<close>

text \<open>
  \<^verbatim>\<open>
  def monte_carlo_e_soft(env, neps = int(5e3), eps = 1e-2):
      policy = np.full((env.nS, env.nA), 1 / env.nA)
      Q = np.zeros((env.nS, env.nA))
      rewards = np.zeros((env.nS, env.nA))
      visits = np.zeros((env.nS, env.nA))
      for _ in range(neps):
          G = 0
          episode = run_game(env, policy)
          for i in reversed(range(len(episode))):
              s, a, r = episode[i]
              G += r
              if not (s, a) in [(x[0], x[1]) for x in episode[:i]]:
                  rewards[s, a] += G
                  visits[s, a] += 1
                  Q[s, a] = rewards[s, a] / visits[s, a]
                  max_idx = np.random.choice(np.where(Q[s, :] == max(Q[s, :]))[0])
                  policy[s, :] = eps / env.nA
                  policy[s, max_idx] += 1 - eps
      return policy
  \<close>
  The state of the fit is a record; \<open>mc_visit\<close> is the body of the inner loop for
  position \<open>i\<close> of the episode (here \<open>ep\<close>) and \<open>greedy_choice\<close> the tie-broken
  arg-max in it.
\<close>

record 'g mc_state =
  mc_policy :: table
  mc_Q :: table
  mc_rewards :: table
  mc_visits :: table
  mc_G :: real
  mc_gen :: 'g

definition mc_init :: "'e env \<Rightarrow> 'g \<Rightarrow> error + 'g mc_state" where
  "mc_init env g =
     (if nA env = 0 then Inl ZeroDivisionError
      else Inr \<lparr>mc_policy = np_full (nS env) (nA env) (1 / real (nA env)),
                mc_Q = np_zeros (nS env) (nA env),
                mc_rewards = np_zeros (nS env) (nA env),
                mc_visits = np_zeros (nS env) (nA env),
                mc_G = 0, mc_gen = g\<rparr>)"

definition greedy_choice :: "'g rng \<Rightarrow> 'g \<Rightarrow> real list \<Rightarrow> error + action \<times> 'g" where
  "greedy_choice rng g row =
     bindE (np_max row) (\<lambda>m. np_choice rng g (np_where_eq row m))"

definition mc_visit ::
  "'e env \<Rightarrow> 'g rng \<Rightarrow> real \<Rightarrow> transition list \<Rightarrow> nat \<Rightarrow> 'g mc_state \<Rightarrow> error + 'g mc_state" where
  "mc_visit env rng eps ep i st =
     (if length ep \<le> i then Inl IndexError
      else case ep ! i of
        (s, a, r) \<Rightarrow>
          let G' = mc_G st + r in
          if (s, a) \<in> set (map (\<lambda>x. (fst x, fst (snd x))) (take i ep))
          then Inr (st\<lparr>mc_G := G'\<rparr>)
          else
            bindE (np_get (mc_rewards st) s a) (\<lambda>rw.
            bindE (np_set (mc_rewards st) s a (rw + G')) (\<lambda>rewards'.
            bindE (np_get (mc_visits st) s a) (\<lambda>v.
            bindE (np_set (mc_visits st) s a (v + 1)) (\<lambda>visits'.
            bindE (if v + 1 = 0 then Inl FloatingPointError
                   else np_set (mc_Q st) s a ((rw + G') / (v + 1))) (\<lambda>Q'.
            bindE (np_row Q' s) (\<lambda>row.
            bindE (greedy_choice rng (mc_gen st) row) (\<lambda>(max_idx, g').
            bindE (if nA env = 0 then Inl ZeroDivisionError
                   else np_fill_row (mc_policy st) s (eps / real (nA env))) (\<lambda>policy'.
            bindE (np_get policy' s max_idx) (\<lambda>p.
            bindE (np_set policy' s max_idx (p + (1 - eps))) (\<lambda>policy''.
            Inr \<lparr>mc_policy = policy'', mc_Q = Q', mc_rewards = rewards',
                 mc_visits = visits', mc_G = G', mc_gen = g'\<rparr>)))))))))))"

primrec mc_episodes ::
  "'e env \<Rightarrow> 'g rng \<Rightarrow> real \<Rightarrow> nat \<Rightarrow> 'g mc_state \<times> 'e \<Rightarrow> (error + 'g mc_state \<times> 'e) option" where
  "mc_episodes env rng eps 0 c = Some (Inr c)"
| "mc_episodes env rng eps (Suc n) c =
     (case c of (st, e) \<Rightarrow>
        case run_game env rng (mc_policy st) e (mc_gen st) of
          None \<Rightarrow> None
        | Some (Inl err) \<Rightarrow> Some (Inl err)
        | Some (Inr (ep, e', g')) \<Rightarrow>
            (case foldE (mc_visit env rng eps ep) (rev [0..<length ep])
                    (st\<lparr>mc_G := 0, mc_gen := g'\<rparr>) of
               Inl err \<Rightarrow> Some (Inl err)
             | Inr st' \<Rightarrow> mc_episodes env rng eps n (st', e')))"

definition monte_carlo_e_soft ::
  "'e env \<Rightarrow> 'g rng \<Rightarrow> nat \<Rightarrow> real \<Rightarrow> 'e \<Rightarrow> 'g \<Rightarrow> (error + table \<times> 'e \<times> 'g) option" where
  "monte_carlo_e_soft env rng neps eps e g =
     (case mc_init env g of
        Inl err \<Rightarrow> Some (Inl err)
      | Inr st0 \<Rightarrow>
          (case mc_episodes env rng eps neps (st0, e) of
             None \<Rightarrow> None
           | Some (Inl err) \<Rightarrow> Some (Inl err)
           | Some (Inr (st, e')) \<Rightarrow> Some (Inr (mc_policy st, e', mc_gen st))))"

text \<open>
  The states of the fit that training passes through: the initial one, the one at the
  start of an ep (the return reset, the generator advanced by the game) and the one
  after each pass of the inner loop.
\<close>

inductive mc_reachable :: "'e env \<Rightarrow> 'g rng \<Rightarrow> real \<Rightarrow> 'g mc_state \<Rightarrow> bool"
  for env :: "'e env" and rng :: "'g rng" and eps :: real where
  init: "mc_init env g = Inr st \<Longrightarrow> mc_reachable env rng eps st"
| game: "mc_reachable env rng eps st \<Longrightarrow> mc_reachable env rng eps (st\<lparr>mc_G := 0, mc_gen := g'\<rparr>)"
| visit: "mc_reachable env rng eps st \<Longrightarrow> mc_visit env rng eps ep i st = Inr st'
            \<Longrightarrow> mc_reachable env rng eps st'"

text \<open>The invariant of the policy table: rows of the width of the action set, summing to one.\<close>

definition policy_ok :: "'e env \<Rightarrow> table \<Rightarrow> bool" where
  "policy_ok env P = (\<forall>row \<in> set P. length row = nA env \<and> sum_list row = 1)"

section \<open>Bandits: UCB and Thompson sampling (bandit notebooks)\<close>

text \<open>
  \<^verbatim>\<open>
  def expl_bonus(visits, delta = 1/np.exp(4)):
      return np.sqrt(2 * np.log(1 / delta) / visits)
  \<close>
\<close>

definition expl_bonus :: "real list \<Rightarrow> real \<Rightarrow> error + real list" where
  "expl_bonus visits delta =
     (if delta \<le> 0 \<or> (\<exists>v \<in> set visits. v = 0 \<or> 2 * ln (1 / delta) / v < 0)
      then Inl FloatingPointError
      else Inr (map (\<lambda>v. sqrt (2 * ln (1 / delta) / v)) visits))"

text \<open>
  \<^verbatim>\<open>
  visits = np.ones(2)
  rewards = np.zeros(2)
  trace_a = []
  for _ in range(N):
      kpi = rewards / visits + expl_bonus(visits)
      a = np.argmax(kpi)
      r = np.random.normal(mus[a])
      visits[a] += 1
      rewards[a] += r
      trace_a += [a]
  \<close>
\<close>

type_synonym 'g bandit = "real list \<times> real list \<times> nat list \<times> 'g"

definition ucb_round :: "'g rng \<Rightarrow> real list \<Rightarrow> 'g bandit \<Rightarrow> error + 'g bandit" where
  "ucb_round rng mus st =
     (case st of (visits, rewards, trace_a, g) \<Rightarrow>
        bindE (np_divide rewards visits) (\<lambda>means.
        bindE (expl_bonus visits (1 / exp 4)) (\<lambda>bonus.
        bindE (np_add means bonus) (\<lambda>kpi.
        bindE (np_argmax kpi) (\<lambda>a.
        bindE (py_index mus a) (\<lambda>mu.
          case normal rng g mu of
            (r, g') \<Rightarrow>
              bindE (np_add_at visits a 1) (\<lambda>visits'.
              bindE (np_add_at rewards a r) (\<lambda>rewards'.
              Inr (visits', rewards', trace_a @ [a], g')))))))))"

primrec rounds :: "('s \<Rightarrow> error + 's) \<Rightarrow> nat \<Rightarrow> 's \<Rightarrow> error + 's" where
  \<comment> \<open>\<^verbatim>\<open>for _ in range(N): body\<close>\<close>
  "rounds body 0 st = Inr st"
| "rounds body (Suc n) st = bindE (body st) (rounds body n)"

definition ucb :: "'g rng \<Rightarrow> real list \<Rightarrow> nat \<Rightarrow> 'g \<Rightarrow> error + 'g bandit" where
  "ucb rng mus N g = rounds (ucb_round rng mus) N ([1, 1], [0, 0], [], g)"





text \<open>
  The invariant of the UCB loop: two arms, and the count of an arm is one more than the
  number of times the trace holds it.
\<close>

definition ucb_inv :: "'g bandit \<Rightarrow> bool" where
  "ucb_inv st =
     (case st of (visits, rewards, trace_a, g) \<Rightarrow>
        length visits = 2 \<and> length rewards = 2 \<and>
        (\<forall>a<2. visits ! a = 1 + real (count_list trace_a a)))"


text \<open>The shape of a table: \<open>m\<close> rows of \<open>n\<close> entries.\<close>

definition table_shape :: "table \<Rightarrow> nat \<Rightarrow> nat \<Rightarrow> bool" where
  "table_shape M m n = (length M = m \<and> (\<forall>row \<in> set M. length row = n))"

section \<open>Reward to go: correctness\<close>

lemma rtg_loop_inv:
  "k \<le> length rs \<Longrightarrow>
   length (foldr (rtg_body rs) [k..<length rs] (replicate (length rs) 0)) = length rs \<and>
   (\<forall>i. k \<le> i \<and> i < length rs \<longrightarrow>
      foldr (rtg_body rs) [k..<length rs] (replicate (length rs) 0) ! i = sum_list (drop i rs))"
proof (induction k rule: inc_induct)
  case base
  show ?case by simp
next
  case (step k)
  let ?prev = "foldr (rtg_body rs) [Suc k..<length rs] (replicate (length rs) 0)"
  have unfold: "foldr (rtg_body rs) [k..<length rs] (replicate (length rs) 0)
                  = rtg_body rs k ?prev"
    using step.hyps by (simp add: upt_conv_Cons)
  have len: "length ?prev = length rs" using step.IH by simp
  have tail: "\<And>i. Suc k \<le> i \<Longrightarrow> i < length rs \<Longrightarrow> ?prev ! i = sum_list (drop i rs)"
    using step.IH by simp
  have here: "rtg_body rs k ?prev ! k = sum_list (drop k rs)"
  proof (cases "Suc k < length rs")
    case True
    have "drop k rs = rs ! k # drop (Suc k) rs"
      using step.hyps by (simp add: Cons_nth_drop_Suc)
    then show ?thesis
      using True len tail[of "Suc k"] step.hyps by (simp add: rtg_body_def)
  next
    case False
    then have "Suc k = length rs" using step.hyps by simp
    then have "drop k rs = [rs ! k]"
      by (metis Cons_nth_drop_Suc drop_all le_refl lessI)
    then show ?thesis
      using False len step.hyps by (simp add: rtg_body_def)
  qed
  show ?case
  proof (intro conjI allI impI)
    show "length (foldr (rtg_body rs) [k..<length rs] (replicate (length rs) 0)) = length rs"
      using len by (simp add: unfold rtg_body_def)
  next
    fix i assume i: "k \<le> i \<and> i < length rs"
    show "foldr (rtg_body rs) [k..<length rs] (replicate (length rs) 0) ! i
            = sum_list (drop i rs)"
    proof (cases "i = k")
      case True
      then show ?thesis using here unfold by simp
    next
      case False
      then have "Suc k \<le> i" using i by simp
      then show ?thesis
        using tail[of i] i False len by (simp add: unfold rtg_body_def)
    qed
  qed
qed

lemma rtg_foldr: "rtg rs = foldr (rtg_body rs) [0..<length rs] (replicate (length rs) 0)"
  by (simp add: rtg_def Let_def foldr_conv_fold)

lemma rtg_length: "length (rtg rs) = length rs"
  using rtg_loop_inv[of 0 rs] by (simp add: rtg_foldr)

lemma rtg_nth: "i < length rs \<Longrightarrow> rtg rs ! i = sum_list (drop i rs)"
  using rtg_loop_inv[of 0 rs] by (simp add: rtg_foldr)

text \<open>
  C1. The reward-to-go list has one entry per reward. It obeys the backward recurrence
  with terminal value zero and discount one, \<open>G[t] = reward[t] + G[t+1]\<close> with
  \<open>G[n] = 0\<close>, and therefore entry \<open>i\<close> is the sum of the rewards from position \<open>i\<close>
  to the end of the episode.
\<close>

theorem rtg_backward_recurrence:
  "length (rtg rs) = length rs \<and>
   (\<forall>i<length rs. rtg rs ! i = rs ! i + (if i + 1 < length rs then rtg rs ! (i + 1) else 0)) \<and>
   (\<forall>i<length rs. rtg rs ! i = sum_list (drop i rs))"
proof (intro conjI allI impI)
  show "length (rtg rs) = length rs" by (rule rtg_length)
next
  fix i assume i: "i < length rs"
  have split: "drop i rs = rs ! i # drop (Suc i) rs"
    using i by (simp add: Cons_nth_drop_Suc)
  show "rtg rs ! i = rs ! i + (if i + 1 < length rs then rtg rs ! (i + 1) else 0)"
  proof (cases "i + 1 < length rs")
    case True
    then show ?thesis using i split by (simp add: rtg_nth)
  next
    case False
    then have "drop (Suc i) rs = []" by simp
    then show ?thesis using i split False by (simp add: rtg_nth)
  qed
next
  fix i assume "i < length rs"
  then show "rtg rs ! i = sum_list (drop i rs)" by (rule rtg_nth)
qed

theorem rtg_backward_recurrence_witness:
  "rtg [1, 0, 2] = [3, 2, 2] \<and> rtg [1, 0, 2] ! 0 = sum_list (drop 0 [1, 0, 2 :: real])"
proof -
  have "rtg [1, 0, 2] = [3, 2, 2]"
    by (simp add: rtg_def Let_def rtg_body_def upt_rec)
  moreover have "rtg [1, 0, 2] ! 0 = sum_list (drop 0 [1, 0, 2 :: real])"
    using rtg_backward_recurrence[of "[1, 0, 2]"] by simp
  ultimately show ?thesis by simp
qed

section \<open>Monte Carlo value estimation: what an episode returns\<close>

lemma ep_obs_0:
  "ep_obs env rng 0 (e, g) = fst (step env e (fst (randint rng g (nA env))))"
  by (simp add: ep_obs_def)

lemma ep_obs_Suc: "ep_obs env rng (Suc k) c = ep_obs env rng k (ep_next env rng c)"
  by (simp add: ep_obs_def funpow_swap1)

lemma upt_Suc_shift: "[0..<Suc (Suc k)] = 0 # map Suc [0..<Suc k]"
  by (simp only: map_Suc_upt upt_conv_Cons[of 0 "Suc (Suc k)"] zero_less_Suc)

lemma episode_loop_returns:
  assumes "nA env \<noteq> 0"
      and "snd (snd (ep_obs env rng k (e, g)))"
      and "\<forall>j<k. \<not> snd (snd (ep_obs env rng j (e, g)))"
  shows "episode_loop env rng e g tr R =
           Some (Inr ((tr @ map (\<lambda>j. fst (ep_obs env rng j (e, g))) [0..<Suc k],
                       R + sum_list (map (\<lambda>j. fst (snd (ep_obs env rng j (e, g)))) [0..<Suc k])),
                      (ep_next env rng ^^ Suc k) (e, g)))"
  using assms(2,3)
proof (induction k arbitrary: e g tr R)
  case 0
  obtain a g' where rg: "randint rng g (nA env) = (a, g')" by (cases "randint rng g (nA env)")
  obtain s r d e' where st: "step env e a = ((s, r, d), e')" by (cases "step env e a") auto
  have d using 0(1) rg st by (simp add: ep_obs_0)
  then show ?case
    using assms(1) rg st
    by (subst episode_loop.simps) (simp add: np_choice_n_def ep_obs_0 ep_next_def)
next
  case (Suc k)
  obtain a g' where rg: "randint rng g (nA env) = (a, g')" by (cases "randint rng g (nA env)")
  obtain s r d e' where st: "step env e a = ((s, r, d), e')" by (cases "step env e a") auto
  have nxt: "ep_next env rng (e, g) = (e', g')" using rg st by (simp add: ep_next_def)
  have nd: "\<not> d" using Suc.prems(2)[rule_format, of 0] rg st by (simp add: ep_obs_0)
  have d': "snd (snd (ep_obs env rng k (e', g')))"
    using Suc.prems(1) by (simp add: ep_obs_Suc nxt)
  have nd': "\<forall>j<k. \<not> snd (snd (ep_obs env rng j (e', g')))"
    using Suc.prems(2) by (auto simp: ep_obs_Suc nxt dest: Suc_mono)
  have obs0: "ep_obs env rng 0 (e, g) = (s, r, d)" using rg st by (simp add: ep_obs_0)
  have unf: "episode_loop env rng e g tr R = episode_loop env rng e' g' (tr @ [s]) (R + r)"
    using assms(1) rg st nd by (subst episode_loop.simps) (simp add: np_choice_n_def)
  show ?case
    unfolding unf Suc.IH[OF d' nd'] upt_Suc_shift[of k]
    by (simp add: ep_obs_Suc nxt obs0 comp_def funpow_swap1 add.assoc del: upt_Suc)
qed

lemma episode_loop_done_aux:
  assumes "episode_loop env rng e g tr R = Some y"
  shows "\<forall>res. y = Inr res \<longrightarrow>
        nA env \<noteq> 0 \<and> (\<exists>k. snd (snd (ep_obs env rng k (e, g))) \<and>
          (\<forall>j<k. \<not> snd (snd (ep_obs env rng j (e, g)))))"
proof (rule episode_loop.raw_induct[OF _ assms, where P = "\<lambda>env rng e g tr R y. \<forall>res. y = Inr res \<longrightarrow>
        nA env \<noteq> 0 \<and> (\<exists>k. snd (snd (ep_obs env rng k (e, g))) \<and>
          (\<forall>j<k. \<not> snd (snd (ep_obs env rng j (e, g)))))"], goal_cases)
  case (1 loop env rng e g tr R y)
  show ?case
  proof (intro allI impI)
    fix res assume y: "y = Inr res"
    have nz: "nA env \<noteq> 0"
      using 1(2) y by (auto simp: np_choice_n_def split: if_splits)
    obtain a g' where rg: "randint rng g (nA env) = (a, g')" by (cases "randint rng g (nA env)")
    obtain s r d e' where st: "step env e a = ((s, r, d), e')" by (cases "step env e a") auto
    have obs0: "ep_obs env rng 0 (e, g) = (s, r, d)" using rg st by (simp add: ep_obs_0)
    have nxt: "ep_next env rng (e, g) = (e', g')" using rg st by (simp add: ep_next_def)
    show "nA env \<noteq> 0 \<and> (\<exists>k. snd (snd (ep_obs env rng k (e, g))) \<and>
          (\<forall>j<k. \<not> snd (snd (ep_obs env rng j (e, g)))))"
    proof (cases d)
      case True
      then have "snd (snd (ep_obs env rng 0 (e, g))) \<and>
          (\<forall>j<0. \<not> snd (snd (ep_obs env rng j (e, g))))" using obs0 by simp
      then show ?thesis using nz by blast
    next
      case False
      then have "loop env rng e' g' (tr @ [s]) (R + r) = Some y"
        using 1(2) nz rg st by (simp add: np_choice_n_def)
      from 1(1)[OF this] y obtain k where
        k: "snd (snd (ep_obs env rng k (e', g')))"
           "\<forall>j<k. \<not> snd (snd (ep_obs env rng j (e', g')))" by blast
      have "snd (snd (ep_obs env rng (Suc k) (e, g)))" using k(1) by (simp add: ep_obs_Suc nxt)
      moreover have "\<forall>j<Suc k. \<not> snd (snd (ep_obs env rng j (e, g)))"
      proof (intro allI impI)
        fix j assume "j < Suc k"
        then show "\<not> snd (snd (ep_obs env rng j (e, g)))"
          using k(2) False obs0 by (cases j) (simp_all add: ep_obs_Suc nxt)
      qed
      ultimately show ?thesis using nz by blast
    qed
  qed
qed

lemma assign_fold_length:
  "length (fold (\<lambda>i M'. M'[i := (M' ! i)[j := v]]) idxs M) = length M"
  by (induction idxs arbitrary: M) simp_all

lemma assign_fold_other:
  "s \<notin> set idxs \<Longrightarrow> fold (\<lambda>i M'. M'[i := (M' ! i)[j := v]]) idxs M ! s = M ! s"
  by (induction idxs arbitrary: M) auto

lemma assign_fold_hit:
  "s \<in> set idxs \<Longrightarrow> \<forall>i \<in> set idxs. i < length M \<and> j < length (M ! i) \<Longrightarrow>
     fold (\<lambda>i M'. M'[i := (M' ! i)[j := (v::real)]]) idxs M ! s ! j = v"
proof (induction idxs arbitrary: M)
  case Nil
  then show ?case by simp
next
  case (Cons i idxs)
  let ?M = "M[i := (M ! i)[j := v]]"
  have ok: "\<forall>i' \<in> set idxs. i' < length ?M \<and> j < length (?M ! i')"
    using Cons.prems(2) by (auto simp: nth_list_update)
  show ?case
  proof (cases "s \<in> set idxs")
    case True
    then show ?thesis using Cons.IH[OF True ok] by simp
  next
    case False
    then have "s = i" using Cons.prems(1) by simp
    then show ?thesis using False Cons.prems(2) by (simp add: assign_fold_other)
  qed
qed

lemma np_assign_rows_col_hit:
  "np_assign_rows_col M idxs j v = Inr M' \<Longrightarrow> s \<in> set idxs \<Longrightarrow> M' ! s ! j = v"
  by (auto simp: np_assign_rows_col_def assign_fold_hit split: if_splits)

lemma chain_episode:
  "episode chain_env const_rng 0 () = Some (Inr (([0, 1, 2], 2), 2, ()))"
  by (simp add: episode_def chain_env_def const_rng_def episode_loop.simps np_choice_n_def)

lemma chain_mc_iteration:
  "mc_iteration chain_env const_rng 0 (np_zeros 3 1, np_zeros 3 1, 0, ())
     = Some (Inr ([[2], [2], [2]], [[1], [1], [1]], 2, ()))"
  by (simp add: mc_iteration_def chain_episode bindE_def np_assign_rows_col_def np_zeros_def
        numeral_3_eq_3)

lemma assign_fold_col_other:
  "j' \<noteq> j \<Longrightarrow> fold (\<lambda>i M'. M'[i := (M' ! i)[j := (v::real)]]) idxs M ! s ! j' = M ! s ! j'"
proof (induction idxs arbitrary: M)
  case Nil
  show ?case by simp
next
  case (Cons i idxs)
  have "M[i := (M ! i)[j := v]] ! s ! j' = M ! s ! j'"
  proof (cases "s = i \<and> i < length M")
    case True
    then show ?thesis using Cons.prems by simp
  next
    case False
    then have "M[i := (M ! i)[j := v]] ! s = M ! s"
      by (cases "i < length M") (auto simp: nth_list_update list_update_beyond)
    then show ?thesis by simp
  qed
  then show ?case using Cons.IH[OF Cons.prems] by simp
qed

lemma assign_fold_shape:
  "table_shape M m n \<Longrightarrow> table_shape (fold (\<lambda>i M'. M'[i := (M' ! i)[j := (v::real)]]) idxs M) m n"
proof (induction idxs arbitrary: M)
  case Nil
  then show ?case by simp
next
  case (Cons i idxs)
  have "table_shape (M[i := (M ! i)[j := v]]) m n"
  proof (cases "i < length M")
    case True
    have "set (M[i := (M ! i)[j := v]]) \<subseteq> insert ((M ! i)[j := v]) (set M)"
      by (rule set_update_subset_insert)
    moreover have "length ((M ! i)[j := v]) = n"
      using Cons.prems True by (simp add: table_shape_def)
    ultimately show ?thesis using Cons.prems by (auto simp: table_shape_def)
  next
    case False
    then show ?thesis using Cons.prems by (simp add: list_update_beyond)
  qed
  then show ?case using Cons.IH by simp
qed

lemma np_assign_rows_col_Inr:
  "np_assign_rows_col M idxs j v = Inr M' \<Longrightarrow>
     M' = fold (\<lambda>i M'. M'[i := (M' ! i)[j := v]]) idxs M"
  by (auto simp: np_assign_rows_col_def split: if_splits)

lemma np_assign_rows_col_total:
  assumes "table_shape M m n" "j < n" "\<forall>i \<in> set idxs. i < m"
  shows "\<exists>M'. np_assign_rows_col M idxs j v = Inr M'"
proof -
  have "\<forall>i \<in> set idxs. i < length M \<and> j < length (M ! i)"
  proof
    fix i assume "i \<in> set idxs"
    then have i: "i < length M" using assms(1,3) by (simp add: table_shape_def)
    then have "M ! i \<in> set M" by simp
    then have "length (M ! i) = n" using assms(1) by (simp add: table_shape_def)
    then show "i < length M \<and> j < length (M ! i)" using i assms(2) by simp
  qed
  then show ?thesis by (simp add: np_assign_rows_col_def)
qed

lemma np_assign_rows_col_frame:
  assumes "np_assign_rows_col M idxs j v = Inr M'"
  shows "(\<forall>s j'. j' \<noteq> j \<longrightarrow> M' ! s ! j' = M ! s ! j') \<and>
         (\<forall>s. s \<notin> set idxs \<longrightarrow> M' ! s = M ! s) \<and>
         (\<forall>m n. table_shape M m n \<longrightarrow> table_shape M' m n)"
  unfolding np_assign_rows_col_Inr[OF assms]
  by (simp add: assign_fold_col_other assign_fold_other assign_fold_shape)

lemma mc_iteration_Inr:
  assumes "mc_iteration env rng i (rewards, visits, e, g) = Some (Inr (rewards', visits', e', g'))"
  shows "\<exists>state_trace R.
           episode env rng e g = Some (Inr ((state_trace, R), e', g')) \<and>
           np_assign_rows_col rewards state_trace i R = Inr rewards' \<and>
           np_assign_rows_col visits state_trace i 1 = Inr visits'"
  using assms by (auto simp: mc_iteration_def bindE_def split: option.splits sum.splits)

lemma mc_iteration_frame:
  assumes "mc_iteration env rng j (rewards, visits, e, g) = Some (Inr (rewards', visits', e', g'))"
      and "j \<noteq> i"
  shows "(\<forall>s. rewards' ! s ! i = rewards ! s ! i \<and> visits' ! s ! i = visits ! s ! i) \<and>
         (\<forall>m n. table_shape rewards m n \<longrightarrow> table_shape rewards' m n) \<and>
         (\<forall>m n. table_shape visits m n \<longrightarrow> table_shape visits' m n)"
proof -
  from mc_iteration_Inr[OF assms(1)] obtain state_trace R where
    rw: "np_assign_rows_col rewards state_trace j R = Inr rewards'" and
    vs: "np_assign_rows_col visits state_trace j 1 = Inr visits'" by blast
  show ?thesis
    using np_assign_rows_col_frame[OF rw] np_assign_rows_col_frame[OF vs] assms(2) by simp
qed

lemma mc_loop_frame:
  "mc_loop env rng js (rewards, visits, e, g) = Some (Inr (rewards', visits', e', g')) \<Longrightarrow>
   i \<notin> set js \<Longrightarrow>
     (\<forall>s. rewards' ! s ! i = rewards ! s ! i \<and> visits' ! s ! i = visits ! s ! i)"
proof (induction js arbitrary: rewards visits e g)
  case Nil
  then show ?case by simp
next
  case (Cons j js)
  from Cons.prems(1) obtain rw1 vs1 e1 g1 where
    it: "mc_iteration env rng j (rewards, visits, e, g) = Some (Inr (rw1, vs1, e1, g1))" and
    rest: "mc_loop env rng js (rw1, vs1, e1, g1) = Some (Inr (rewards', visits', e', g'))"
    by (auto split: option.splits sum.splits)
  have ji: "j \<noteq> i" and ijs: "i \<notin> set js" using Cons.prems(2) by auto
  from mc_iteration_frame[OF it ji] have
    "\<forall>s. rw1 ! s ! i = rewards ! s ! i \<and> vs1 ! s ! i = visits ! s ! i" by blast
  moreover from Cons.IH[OF rest ijs] have
    "\<forall>s. rewards' ! s ! i = rw1 ! s ! i \<and> visits' ! s ! i = vs1 ! s ! i" .
  ultimately show ?case by simp
qed

lemma mc_loop_shape:
  "mc_loop env rng js (rewards, visits, e, g) = Some (Inr (rewards', visits', e', g')) \<Longrightarrow>
   table_shape rewards m n \<Longrightarrow> table_shape visits m n \<Longrightarrow>
     table_shape rewards' m n \<and> table_shape visits' m n"
proof (induction js arbitrary: rewards visits e g)
  case Nil
  then show ?case by simp
next
  case (Cons j js)
  from Cons.prems(1) obtain rw1 vs1 e1 g1 where
    it: "mc_iteration env rng j (rewards, visits, e, g) = Some (Inr (rw1, vs1, e1, g1))" and
    rest: "mc_loop env rng js (rw1, vs1, e1, g1) = Some (Inr (rewards', visits', e', g'))"
    by (auto split: option.splits sum.splits)
  from mc_iteration_Inr[OF it] obtain state_trace R where
    rw: "np_assign_rows_col rewards state_trace j R = Inr rw1" and
    vs: "np_assign_rows_col visits state_trace j 1 = Inr vs1" by blast
  have "table_shape rw1 m n" "table_shape vs1 m n"
    using np_assign_rows_col_frame[OF rw] np_assign_rows_col_frame[OF vs] Cons.prems(2,3)
    by blast+
  then show ?case using Cons.IH[OF rest] by blast
qed

lemma mc_loop_append:
  "mc_loop env rng (xs @ ys) st =
     (case mc_loop env rng xs st of
        None \<Rightarrow> None
      | Some (Inl err) \<Rightarrow> Some (Inl err)
      | Some (Inr st1) \<Rightarrow> mc_loop env rng ys st1)"
proof (induction xs arbitrary: st)
  case Nil
  show ?case by simp
next
  case (Cons x xs)
  show ?case
  proof (cases "mc_iteration env rng x st")
    case None
    then show ?thesis by simp
  next
    case (Some y)
    then show ?thesis using Cons.IH by (cases y) simp_all
  qed
qed

lemma np_zeros_shape: "table_shape (np_zeros m n) m n"
  by (simp add: table_shape_def np_zeros_def)

lemma np_zeros_nth: "s < m \<Longrightarrow> i < n \<Longrightarrow> np_zeros m n ! s ! i = 0"
  by (simp add: np_zeros_def)

lemma mc_iteration_value:
  assumes "mc_iteration env rng i (rewards, visits, e, g) = Some (Inr (rewards', visits', e', g'))"
  shows "\<exists>state_trace R k.
      episode env rng e g = Some (Inr ((state_trace, R), e', g')) \<and>
      snd (snd (ep_obs env rng k (snd (reset env e), g))) \<and>
      (\<forall>j<k. \<not> snd (snd (ep_obs env rng j (snd (reset env e), g)))) \<and>
      state_trace = fst (reset env e) # map (\<lambda>j. fst (ep_obs env rng j (snd (reset env e), g))) [0..<Suc k] \<and>
      R = sum_list (map (\<lambda>j. fst (snd (ep_obs env rng j (snd (reset env e), g)))) [0..<Suc k]) \<and>
      (\<forall>s \<in> set state_trace. rewards' ! s ! i = R \<and> visits' ! s ! i = 1) \<and>
      (\<forall>s. s \<notin> set state_trace \<longrightarrow> rewards' ! s = rewards ! s \<and> visits' ! s = visits ! s)"
proof -
  obtain s0 e0 where rs: "reset env e = (s0, e0)" by (cases "reset env e")
  from mc_iteration_Inr[OF assms] obtain state_trace R where
    ep: "episode env rng e g = Some (Inr ((state_trace, R), e', g'))" and
    rw: "np_assign_rows_col rewards state_trace i R = Inr rewards'" and
    vs: "np_assign_rows_col visits state_trace i 1 = Inr visits'"
    by blast
  have loop: "episode_loop env rng e0 g [s0] 0 = Some (Inr ((state_trace, R), e', g'))"
    using ep rs by (simp add: episode_def)
  from episode_loop_done_aux[OF loop] obtain k where
    nz: "nA env \<noteq> 0" and
    dk: "snd (snd (ep_obs env rng k (e0, g)))" and
    nd: "\<forall>j<k. \<not> snd (snd (ep_obs env rng j (e0, g)))" by blast
  have res: "state_trace = s0 # map (\<lambda>j. fst (ep_obs env rng j (e0, g))) [0..<Suc k]"
            "R = sum_list (map (\<lambda>j. fst (snd (ep_obs env rng j (e0, g)))) [0..<Suc k])"
    using loop episode_loop_returns[OF nz dk nd, of "[s0]" 0] by simp_all
  have cells: "\<forall>s \<in> set state_trace. rewards' ! s ! i = R \<and> visits' ! s ! i = 1"
    using np_assign_rows_col_hit[OF rw] np_assign_rows_col_hit[OF vs] by blast
  have others: "\<forall>s. s \<notin> set state_trace \<longrightarrow> rewards' ! s = rewards ! s \<and> visits' ! s = visits ! s"
    using np_assign_rows_col_frame[OF rw] np_assign_rows_col_frame[OF vs] by blast
  show ?thesis
    using ep dk nd res cells others rs
    by (intro exI[of _ state_trace] exI[of _ R] exI[of _ k]) simp
qed

lemma episode_returns:
  assumes nz: "nA env \<noteq> 0"
      and dk: "snd (snd (ep_obs env rng k (snd (reset env e), g)))"
  shows "\<exists>n\<le>k. episode env rng e g =
           Some (Inr ((fst (reset env e) #
                         map (\<lambda>j. fst (ep_obs env rng j (snd (reset env e), g))) [0..<Suc n],
                       sum_list (map (\<lambda>j. fst (snd (ep_obs env rng j (snd (reset env e), g))))
                                  [0..<Suc n])),
                      (ep_next env rng ^^ Suc n) (snd (reset env e), g)))"
proof -
  obtain s0 e0 where rs: "reset env e = (s0, e0)" by (cases "reset env e")
  define n where "n = (LEAST j. snd (snd (ep_obs env rng j (e0, g))))"
  have dn: "snd (snd (ep_obs env rng n (e0, g)))"
    unfolding n_def using dk[unfolded rs snd_conv] by (rule LeastI)
  have nk: "n \<le> k"
    unfolding n_def using dk[unfolded rs snd_conv] by (rule Least_le)
  have first: "\<forall>j<n. \<not> snd (snd (ep_obs env rng j (e0, g)))"
    unfolding n_def using not_less_Least by blast
  have "episode env rng e g = episode_loop env rng e0 g [s0] 0"
    using rs by (simp add: episode_def)
  also have "\<dots> = Some (Inr (([s0] @ map (\<lambda>j. fst (ep_obs env rng j (e0, g))) [0..<Suc n],
                       0 + sum_list (map (\<lambda>j. fst (snd (ep_obs env rng j (e0, g)))) [0..<Suc n])),
                      (ep_next env rng ^^ Suc n) (e0, g)))"
    by (rule episode_loop_returns[OF nz dn first])
  finally show ?thesis using nk rs by (intro exI[of _ n]) simp
qed

lemma mc_iteration_returns:
  assumes nz: "nA env \<noteq> 0"
      and dk: "snd (snd (ep_obs env rng k (snd (reset env e), g)))"
      and sh: "table_shape rewards m n" "table_shape visits m n" and i: "i < n"
      and s0: "fst (reset env e) < m"
      and st: "\<forall>j\<le>k. fst (ep_obs env rng j (snd (reset env e), g)) < m"
  shows "\<exists>rewards' visits' e' g'.
           mc_iteration env rng i (rewards, visits, e, g) = Some (Inr (rewards', visits', e', g'))"
proof -
  from episode_returns[OF nz dk] obtain n' state_trace R c where
    n': "n' \<le> k" and
    tr: "state_trace = fst (reset env e) #
           map (\<lambda>j. fst (ep_obs env rng j (snd (reset env e), g))) [0..<Suc n']" and
    ep: "episode env rng e g = Some (Inr ((state_trace, R), c))"
    by blast
  have inr: "\<forall>s \<in> set state_trace. s < m"
    unfolding tr using s0 st n' by auto
  from np_assign_rows_col_total[OF sh(1) i inr] obtain rewards' where
    rw: "np_assign_rows_col rewards state_trace i R = Inr rewards'" by blast
  from np_assign_rows_col_total[OF sh(2) i inr] obtain visits' where
    vs: "np_assign_rows_col visits state_trace i 1 = Inr visits'" by blast
  obtain e' g' where c: "c = (e', g')" by (cases c)
  have "mc_iteration env rng i (rewards, visits, e, g) = Some (Inr (rewards', visits', e', g'))"
    by (simp add: mc_iteration_def ep c rw vs bindE_def)
  then show ?thesis by blast
qed

lemma mc_loop_Cons_Inr:
  assumes "mc_loop env rng (j # js) (rewards, visits, e, g) = Some (Inr st')"
  shows "\<exists>rw1 vs1 e1 g1.
           mc_iteration env rng j (rewards, visits, e, g) = Some (Inr (rw1, vs1, e1, g1)) \<and>
           mc_loop env rng js (rw1, vs1, e1, g1) = Some (Inr st')"
  using assms by (auto split: option.splits sum.splits)

lemma mc_loop_append_Inr:
  assumes "mc_loop env rng (xs @ ys) st = Some (Inr st')"
  shows "\<exists>rw vs e1 g1. mc_loop env rng xs st = Some (Inr (rw, vs, e1, g1)) \<and>
           mc_loop env rng ys (rw, vs, e1, g1) = Some (Inr st')"
  using assms unfolding mc_loop_append by (auto split: option.splits sum.splits)

lemma mc_estimate_column:
  assumes est: "mc_estimate env rng neps e0 g0 = Some (Inr (rewardsN, visitsN, eN, gN))"
      and i: "i < neps"
  shows "\<exists>rw vs ei gi state_trace R k ei' gi'.
        mc_loop env rng [0..<i] (np_zeros (nS env) neps, np_zeros (nS env) neps, e0, g0)
          = Some (Inr (rw, vs, ei, gi)) \<and>
        episode env rng ei gi = Some (Inr ((state_trace, R), ei', gi')) \<and>
        snd (snd (ep_obs env rng k (snd (reset env ei), gi))) \<and>
        (\<forall>j<k. \<not> snd (snd (ep_obs env rng j (snd (reset env ei), gi)))) \<and>
        state_trace = fst (reset env ei) #
          map (\<lambda>j. fst (ep_obs env rng j (snd (reset env ei), gi))) [0..<Suc k] \<and>
        R = sum_list (map (\<lambda>j. fst (snd (ep_obs env rng j (snd (reset env ei), gi)))) [0..<Suc k]) \<and>
        (\<forall>s \<in> set state_trace. rewardsN ! s ! i = R \<and> visitsN ! s ! i = 1) \<and>
        (\<forall>s<nS env. s \<notin> set state_trace \<longrightarrow> rewardsN ! s ! i = 0 \<and> visitsN ! s ! i = 0)"
proof -
  let ?init = "(np_zeros (nS env) neps, np_zeros (nS env) neps, e0, g0)"
  have split: "[0..<neps] = [0..<i] @ i # [Suc i..<neps]"
    using i by (metis le0 less_imp_le_nat upt_add_eq_append upt_conv_Cons le_add_diff_inverse
        plus_nat.add_0)
  from est have "mc_loop env rng ([0..<i] @ i # [Suc i..<neps]) ?init
                   = Some (Inr (rewardsN, visitsN, eN, gN))"
    by (simp only: mc_estimate_def split[symmetric])
  from mc_loop_append_Inr[OF this] obtain rw vs ei gi where
    before: "mc_loop env rng [0..<i] ?init = Some (Inr (rw, vs, ei, gi))" and
    from_i: "mc_loop env rng (i # [Suc i..<neps]) (rw, vs, ei, gi)
               = Some (Inr (rewardsN, visitsN, eN, gN))"
    by blast
  from mc_loop_Cons_Inr[OF from_i] obtain rw1 vs1 e1 g1 where
    it: "mc_iteration env rng i (rw, vs, ei, gi) = Some (Inr (rw1, vs1, e1, g1))" and
    after: "mc_loop env rng [Suc i..<neps] (rw1, vs1, e1, g1)
              = Some (Inr (rewardsN, visitsN, eN, gN))"
    by blast
  from mc_iteration_value[OF it] obtain state_trace R k where
    ep: "episode env rng ei gi = Some (Inr ((state_trace, R), e1, g1))" and
    dk: "snd (snd (ep_obs env rng k (snd (reset env ei), gi)))" and
    nd: "\<forall>j<k. \<not> snd (snd (ep_obs env rng j (snd (reset env ei), gi)))" and
    tr: "state_trace = fst (reset env ei) #
          map (\<lambda>j. fst (ep_obs env rng j (snd (reset env ei), gi))) [0..<Suc k]" and
    R: "R = sum_list (map (\<lambda>j. fst (snd (ep_obs env rng j (snd (reset env ei), gi)))) [0..<Suc k])" and
    hit: "\<forall>s \<in> set state_trace. rw1 ! s ! i = R \<and> vs1 ! s ! i = 1" and
    miss: "\<forall>s. s \<notin> set state_trace \<longrightarrow> rw1 ! s = rw ! s \<and> vs1 ! s = vs ! s"
    by blast
  have later: "\<forall>s. rewardsN ! s ! i = rw1 ! s ! i \<and> visitsN ! s ! i = vs1 ! s ! i"
    by (rule mc_loop_frame[OF after]) simp
  have earlier: "\<forall>s. rw ! s ! i = np_zeros (nS env) neps ! s ! i \<and>
                     vs ! s ! i = np_zeros (nS env) neps ! s ! i"
    by (rule mc_loop_frame[OF before]) simp
  have visited: "\<forall>s \<in> set state_trace. rewardsN ! s ! i = R \<and> visitsN ! s ! i = 1"
    using hit later by simp
  have unvisited: "\<forall>s<nS env. s \<notin> set state_trace \<longrightarrow>
                      rewardsN ! s ! i = 0 \<and> visitsN ! s ! i = 0"
  proof (intro allI impI)
    fix s assume s: "s < nS env" and ns: "s \<notin> set state_trace"
    have "rewardsN ! s ! i = rw ! s ! i" "visitsN ! s ! i = vs ! s ! i"
      using later miss ns by simp_all
    then show "rewardsN ! s ! i = 0 \<and> visitsN ! s ! i = 0"
      using earlier np_zeros_nth[OF s i] by simp
  qed
  show ?thesis
    using before ep dk nd tr R visited unvisited
    by (intro exI[of _ rw] exI[of _ vs] exI[of _ ei] exI[of _ gi] exI[of _ state_trace]
          exI[of _ R] exI[of _ k] exI[of _ e1] exI[of _ g1]) simp
qed

lemma mc_loop_next_returns:
  assumes before: "mc_loop env rng [0..<i] (np_zeros (nS env) neps, np_zeros (nS env) neps, e0, g0)
                     = Some (Inr (rwi, vsi, ei, gi))"
      and i: "i < neps" and nz: "nA env \<noteq> 0"
      and dk: "snd (snd (ep_obs env rng k (snd (reset env ei), gi)))"
      and s0: "fst (reset env ei) < nS env"
      and st: "\<forall>j\<le>k. fst (ep_obs env rng j (snd (reset env ei), gi)) < nS env"
  shows "\<exists>st'. mc_loop env rng [0..<Suc i] (np_zeros (nS env) neps, np_zeros (nS env) neps, e0, g0)
                  = Some (Inr st')"
proof -
  have sh: "table_shape rwi (nS env) neps" "table_shape vsi (nS env) neps"
    using mc_loop_shape[OF before np_zeros_shape np_zeros_shape] by simp_all
  from mc_iteration_returns[OF nz dk sh i s0 st] obtain rw1 vs1 e1 g1 where
    it: "mc_iteration env rng i (rwi, vsi, ei, gi) = Some (Inr (rw1, vs1, e1, g1))" by blast
  have "mc_loop env rng ([0..<i] @ [i]) (np_zeros (nS env) neps, np_zeros (nS env) neps, e0, g0)
          = Some (Inr (rw1, vs1, e1, g1))"
    unfolding mc_loop_append before by (simp add: it)
  then show ?thesis by simp
qed

lemma chain_episode_any:
  "episode chain_env const_rng e () = Some (Inr (([0, 1, 2], 2), 2, ()))"
  by (simp add: episode_def chain_env_def const_rng_def episode_loop.simps np_choice_n_def)

lemma chain_mc_iteration_any:
  "mc_iteration chain_env const_rng i (rw, vs, e, ())
     = Some (bindE (np_assign_rows_col rw [0, 1, 2] i 2) (\<lambda>rewards'.
             bindE (np_assign_rows_col vs [0, 1, 2] i 1) (\<lambda>visits'.
             Inr (rewards', visits', 2, ()))))"
  by (simp add: mc_iteration_def chain_episode_any)

lemma chain_nS: "nS chain_env = 3"
  by (simp add: chain_env_def)

lemma chain_first_loop:
  "mc_loop chain_env const_rng [0..<1] (np_zeros (nS chain_env) 2, np_zeros (nS chain_env) 2, 0, ())
     = Some (Inr ([[2, 0], [2, 0], [2, 0]], [[1, 0], [1, 0], [1, 0]], 2, ()))"
  by (simp add: chain_mc_iteration_any bindE_def np_assign_rows_col_def np_zeros_def
        chain_nS numeral_3_eq_3 numeral_2_eq_2)

lemma chain_mc_estimate:
  "mc_estimate chain_env const_rng 2 0 ()
     = Some (Inr ([[2, 2], [2, 2], [2, 2]], [[1, 1], [1, 1], [1, 1]], 2, ()))"
  by (simp add: mc_estimate_def chain_mc_iteration_any bindE_def np_assign_rows_col_def
        np_zeros_def chain_nS numeral_3_eq_3 numeral_2_eq_2)

lemma chain_ep_next: "(ep_next chain_env const_rng ^^ j) (e, ()) = (e + j, ())"
  by (induction j) (simp_all add: ep_next_def chain_env_def const_rng_def)

lemma chain_ep_obs: "ep_obs chain_env const_rng j (0, ()) = (Suc j, 1, 2 \<le> Suc j)"
  by (simp add: ep_obs_def chain_ep_next) (simp add: chain_env_def const_rng_def)

lemma chain_reset: "reset chain_env e = (0, 0)"
  by (simp add: chain_env_def)

lemma chain_done_at_1:
  "snd (snd (ep_obs chain_env const_rng 1 (snd (reset chain_env e), ())))"
  by (simp add: chain_reset chain_ep_obs)

lemma chain_states_in_range:
  "\<forall>j\<le>1. fst (ep_obs chain_env const_rng j (snd (reset chain_env e), ())) < 3"
  by (simp add: chain_reset chain_ep_obs)

lemma chain_nA_pos: "nA chain_env \<noteq> 0"
  by (simp add: chain_env_def)

text \<open>
  C2. The Monte Carlo loop records, for every episode \<open>i\<close> and every state visited in it,
  the total reward \<open>R\<close> of the episode, the sum of the rewards of all its steps up to the
  first that signals done, whatever the position of the state in the trace.
  One pass of the body: when it returns, every state of the trace holds \<open>R\<close> in column
  \<open>i\<close> of \<open>rewards\<close> and 1 in \<open>visits\<close>, and the rows of the other states are
  unchanged; and it does return when some step of the episode signals done and the states
  met are rows of the tables. The whole loop: in the tables that \<open>mc_estimate\<close> returns,
  column \<open>i\<close> holds \<open>R\<close> of episode \<open>i\<close> for the states that episode visited and 0 for
  the others, later episodes leaving the column alone; and the loop gets through episode
  \<open>i\<close> when it got to it and the episode ends within the state space. \<open>mc_estimate\<close>
  is the loop over the episodes \<open>0..neps-1\<close> from tables of zeros.
\<close>

theorem mc_estimate_records_total_reward:
  "(mc_iteration env rng i (rewards, visits, e, g) = Some (Inr (rewards', visits', e', g')) \<longrightarrow>
      (\<exists>state_trace R k.
         episode env rng e g = Some (Inr ((state_trace, R), e', g')) \<and>
         snd (snd (ep_obs env rng k (snd (reset env e), g))) \<and>
         (\<forall>j<k. \<not> snd (snd (ep_obs env rng j (snd (reset env e), g)))) \<and>
         state_trace = fst (reset env e) #
           map (\<lambda>j. fst (ep_obs env rng j (snd (reset env e), g))) [0..<Suc k] \<and>
         R = sum_list (map (\<lambda>j. fst (snd (ep_obs env rng j (snd (reset env e), g)))) [0..<Suc k]) \<and>
         (\<forall>s \<in> set state_trace. rewards' ! s ! i = R \<and> visits' ! s ! i = 1) \<and>
         (\<forall>s. s \<notin> set state_trace \<longrightarrow> rewards' ! s = rewards ! s \<and> visits' ! s = visits ! s))) \<and>
   (nA env \<noteq> 0 \<and> snd (snd (ep_obs env rng k (snd (reset env e), g))) \<and>
    table_shape rewards m n \<and> table_shape visits m n \<and> i < n \<and> fst (reset env e) < m \<and>
    (\<forall>j\<le>k. fst (ep_obs env rng j (snd (reset env e), g)) < m) \<longrightarrow>
      (\<exists>rewards1 visits1 e1 g1.
         mc_iteration env rng i (rewards, visits, e, g) = Some (Inr (rewards1, visits1, e1, g1)))) \<and>
   (mc_estimate env rng neps e0 g0 = Some (Inr (rewardsN, visitsN, eN, gN)) \<and> i < neps \<longrightarrow>
      (\<exists>rw vs ei gi state_trace R k ei' gi'.
         mc_loop env rng [0..<i] (np_zeros (nS env) neps, np_zeros (nS env) neps, e0, g0)
           = Some (Inr (rw, vs, ei, gi)) \<and>
         episode env rng ei gi = Some (Inr ((state_trace, R), ei', gi')) \<and>
         snd (snd (ep_obs env rng k (snd (reset env ei), gi))) \<and>
         (\<forall>j<k. \<not> snd (snd (ep_obs env rng j (snd (reset env ei), gi)))) \<and>
         state_trace = fst (reset env ei) #
           map (\<lambda>j. fst (ep_obs env rng j (snd (reset env ei), gi))) [0..<Suc k] \<and>
         R = sum_list (map (\<lambda>j. fst (snd (ep_obs env rng j (snd (reset env ei), gi)))) [0..<Suc k]) \<and>
         (\<forall>s \<in> set state_trace. rewardsN ! s ! i = R \<and> visitsN ! s ! i = 1) \<and>
         (\<forall>s<nS env. s \<notin> set state_trace \<longrightarrow> rewardsN ! s ! i = 0 \<and> visitsN ! s ! i = 0))) \<and>
   (mc_loop env rng [0..<i] (np_zeros (nS env) neps, np_zeros (nS env) neps, e0, g0)
      = Some (Inr (rwi, vsi, ei, gi)) \<and>
    i < neps \<and> nA env \<noteq> 0 \<and> snd (snd (ep_obs env rng k (snd (reset env ei), gi))) \<and>
    fst (reset env ei) < nS env \<and>
    (\<forall>j\<le>k. fst (ep_obs env rng j (snd (reset env ei), gi)) < nS env) \<longrightarrow>
      (\<exists>st'. mc_loop env rng [0..<Suc i]
                (np_zeros (nS env) neps, np_zeros (nS env) neps, e0, g0) = Some (Inr st'))) \<and>
   mc_estimate env rng neps e0 g0
     = mc_loop env rng [0..<neps] (np_zeros (nS env) neps, np_zeros (nS env) neps, e0, g0)"
proof (intro conjI impI)
  assume "mc_iteration env rng i (rewards, visits, e, g) = Some (Inr (rewards', visits', e', g'))"
  then show "\<exists>state_trace R k.
         episode env rng e g = Some (Inr ((state_trace, R), e', g')) \<and>
         snd (snd (ep_obs env rng k (snd (reset env e), g))) \<and>
         (\<forall>j<k. \<not> snd (snd (ep_obs env rng j (snd (reset env e), g)))) \<and>
         state_trace = fst (reset env e) #
           map (\<lambda>j. fst (ep_obs env rng j (snd (reset env e), g))) [0..<Suc k] \<and>
         R = sum_list (map (\<lambda>j. fst (snd (ep_obs env rng j (snd (reset env e), g)))) [0..<Suc k]) \<and>
         (\<forall>s \<in> set state_trace. rewards' ! s ! i = R \<and> visits' ! s ! i = 1) \<and>
         (\<forall>s. s \<notin> set state_trace \<longrightarrow> rewards' ! s = rewards ! s \<and> visits' ! s = visits ! s)"
    by (rule mc_iteration_value)
next
  assume h: "nA env \<noteq> 0 \<and> snd (snd (ep_obs env rng k (snd (reset env e), g))) \<and>
    table_shape rewards m n \<and> table_shape visits m n \<and> i < n \<and> fst (reset env e) < m \<and>
    (\<forall>j\<le>k. fst (ep_obs env rng j (snd (reset env e), g)) < m)"
  show "\<exists>rewards1 visits1 e1 g1.
         mc_iteration env rng i (rewards, visits, e, g) = Some (Inr (rewards1, visits1, e1, g1))"
    using h by (intro mc_iteration_returns[of env rng k e g rewards m n visits i]) blast+
next
  assume h: "mc_estimate env rng neps e0 g0 = Some (Inr (rewardsN, visitsN, eN, gN)) \<and> i < neps"
  show "\<exists>rw vs ei gi state_trace R k ei' gi'.
         mc_loop env rng [0..<i] (np_zeros (nS env) neps, np_zeros (nS env) neps, e0, g0)
           = Some (Inr (rw, vs, ei, gi)) \<and>
         episode env rng ei gi = Some (Inr ((state_trace, R), ei', gi')) \<and>
         snd (snd (ep_obs env rng k (snd (reset env ei), gi))) \<and>
         (\<forall>j<k. \<not> snd (snd (ep_obs env rng j (snd (reset env ei), gi)))) \<and>
         state_trace = fst (reset env ei) #
           map (\<lambda>j. fst (ep_obs env rng j (snd (reset env ei), gi))) [0..<Suc k] \<and>
         R = sum_list (map (\<lambda>j. fst (snd (ep_obs env rng j (snd (reset env ei), gi)))) [0..<Suc k]) \<and>
         (\<forall>s \<in> set state_trace. rewardsN ! s ! i = R \<and> visitsN ! s ! i = 1) \<and>
         (\<forall>s<nS env. s \<notin> set state_trace \<longrightarrow> rewardsN ! s ! i = 0 \<and> visitsN ! s ! i = 0)"
    by (rule mc_estimate_column[OF conjunct1[OF h] conjunct2[OF h]])
next
  assume h: "mc_loop env rng [0..<i] (np_zeros (nS env) neps, np_zeros (nS env) neps, e0, g0)
      = Some (Inr (rwi, vsi, ei, gi)) \<and>
    i < neps \<and> nA env \<noteq> 0 \<and> snd (snd (ep_obs env rng k (snd (reset env ei), gi))) \<and>
    fst (reset env ei) < nS env \<and>
    (\<forall>j\<le>k. fst (ep_obs env rng j (snd (reset env ei), gi)) < nS env)"
  show "\<exists>st'. mc_loop env rng [0..<Suc i]
                (np_zeros (nS env) neps, np_zeros (nS env) neps, e0, g0) = Some (Inr st')"
    using h by (intro mc_loop_next_returns[of env rng i neps e0 g0 rwi vsi ei gi k]) blast+
next
  show "mc_estimate env rng neps e0 g0
     = mc_loop env rng [0..<neps] (np_zeros (nS env) neps, np_zeros (nS env) neps, e0, g0)"
    by (simp add: mc_estimate_def)
qed

text \<open>
  On the chain every episode visits 0, 1, 2 with rewards 1, 1: every visited state records
  the total 2, where the reward to go from state 1 is 1.
\<close>

theorem mc_estimate_records_total_reward_witness:
  "mc_iteration chain_env const_rng 0 (np_zeros 3 1, np_zeros 3 1, 0, ())
     = Some (Inr ([[2], [2], [2]], [[1], [1], [1]], 2, ())) \<and>
   (\<exists>state_trace R. episode chain_env const_rng 0 () = Some (Inr ((state_trace, R), 2, ())) \<and>
      (\<forall>s \<in> set state_trace. [[2], [2], [2]] ! s ! 0 = R)) \<and>
   [[2], [2], [2::real]] ! 1 ! 0 \<noteq> rtg [1, 1] ! 1 \<and>
   (\<exists>rewards1 visits1 e1 g1.
      mc_iteration chain_env const_rng 0 (np_zeros 3 1, np_zeros 3 1, 0, ())
        = Some (Inr (rewards1, visits1, e1, g1))) \<and>
   mc_estimate chain_env const_rng 2 0 ()
     = Some (Inr ([[2, 2], [2, 2], [2, 2]], [[1, 1], [1, 1], [1, 1]], 2, ())) \<and>
   (\<exists>ei gi state_trace R ei' gi'.
      episode chain_env const_rng ei gi = Some (Inr ((state_trace, R), ei', gi')) \<and>
      (\<forall>s \<in> set state_trace. [[2, 2], [2, 2], [2, 2]] ! s ! 1 = R)) \<and>
   (\<exists>st'. mc_loop chain_env const_rng [0..<Suc 1]
            (np_zeros (nS chain_env) 2, np_zeros (nS chain_env) 2, 0, ()) = Some (Inr st'))"
proof -
  note instA = mc_estimate_records_total_reward[where env = chain_env and rng = const_rng
      and i = 0 and rewards = "np_zeros 3 1" and visits = "np_zeros 3 1" and e = 0 and g = "()"
      and rewards' = "[[2], [2], [2]]" and visits' = "[[1], [1], [1]]" and e' = 2 and g' = "()"
      and k = 1 and m = 3 and n = 1]
  note instC = mc_estimate_records_total_reward[where env = chain_env and rng = const_rng
      and i = 1 and neps = 2 and e0 = 0 and g0 = "()"
      and rewardsN = "[[2, 2], [2, 2], [2, 2]]" and visitsN = "[[1, 1], [1, 1], [1, 1]]"
      and eN = 2 and gN = "()" and rwi = "[[2, 0], [2, 0], [2, 0]]"
      and vsi = "[[1, 0], [1, 0], [1, 0]]" and ei = 2 and gi = "()" and k = 1]
  have a: "\<exists>state_trace R. episode chain_env const_rng 0 () = Some (Inr ((state_trace, R), 2, ())) \<and>
      (\<forall>s \<in> set state_trace. [[2], [2], [2]] ! s ! 0 = R)"
    using mp[OF instA[THEN conjunct1] chain_mc_iteration] by blast
  have r: "[[2], [2], [2::real]] ! 1 ! 0 \<noteq> rtg [1, 1] ! 1"
    by (simp add: rtg_def Let_def rtg_body_def upt_rec)
  have preB: "nA chain_env \<noteq> 0 \<and>
      snd (snd (ep_obs chain_env const_rng 1 (snd (reset chain_env 0), ()))) \<and>
      table_shape (np_zeros 3 1) 3 1 \<and> table_shape (np_zeros 3 1) 3 1 \<and> (0::nat) < 1 \<and>
      fst (reset chain_env 0) < 3 \<and>
      (\<forall>j\<le>1. fst (ep_obs chain_env const_rng j (snd (reset chain_env 0), ())) < 3)"
    by (intro conjI chain_nA_pos chain_done_at_1 np_zeros_shape chain_states_in_range)
       (simp_all add: chain_reset)
  have b: "\<exists>rewards1 visits1 e1 g1.
      mc_iteration chain_env const_rng 0 (np_zeros 3 1, np_zeros 3 1, 0, ())
        = Some (Inr (rewards1, visits1, e1, g1))"
    by (rule mp[OF instA[THEN conjunct2, THEN conjunct1] preB])
  have preC: "mc_estimate chain_env const_rng 2 0 ()
     = Some (Inr ([[2, 2], [2, 2], [2, 2]], [[1, 1], [1, 1], [1, 1]], 2, ())) \<and> (1::nat) < 2"
    by (intro conjI chain_mc_estimate) simp
  have c: "\<exists>ei gi state_trace R ei' gi'.
      episode chain_env const_rng ei gi = Some (Inr ((state_trace, R), ei', gi')) \<and>
      (\<forall>s \<in> set state_trace. [[2, 2], [2, 2], [2, 2]] ! s ! 1 = R)"
    using mp[OF instC[THEN conjunct2, THEN conjunct2, THEN conjunct1] preC] by blast
  have preD: "mc_loop chain_env const_rng [0..<1]
        (np_zeros (nS chain_env) 2, np_zeros (nS chain_env) 2, 0, ())
      = Some (Inr ([[2, 0], [2, 0], [2, 0]], [[1, 0], [1, 0], [1, 0]], 2, ())) \<and>
    (1::nat) < 2 \<and> nA chain_env \<noteq> 0 \<and>
    snd (snd (ep_obs chain_env const_rng 1 (snd (reset chain_env 2), ()))) \<and>
    fst (reset chain_env 2) < nS chain_env \<and>
    (\<forall>j\<le>1. fst (ep_obs chain_env const_rng j (snd (reset chain_env 2), ())) < nS chain_env)"
    unfolding chain_nS
    by (intro conjI chain_first_loop[unfolded chain_nS] chain_nA_pos chain_done_at_1
          chain_states_in_range)
       (simp_all add: chain_reset)
  have d: "\<exists>st'. mc_loop chain_env const_rng [0..<Suc 1]
            (np_zeros (nS chain_env) 2, np_zeros (nS chain_env) 2, 0, ()) = Some (Inr st')"
    by (rule mp[OF instC[THEN conjunct2, THEN conjunct2, THEN conjunct2, THEN conjunct1] preD])
  show ?thesis by (intro conjI chain_mc_iteration a r b chain_mc_estimate c d)
qed

section \<open>Q-learning: one step\<close>

lemma np_max_Inr:
  assumes "np_max xs = Inr m"
  shows "xs \<noteq> [] \<and> m = Max (set xs)"
proof (cases xs)
  case Nil
  then show ?thesis using assms by (simp add: np_max_def)
next
  case (Cons x ys)
  have "fold max ys x = Max (set (x # ys))" by (simp only: Max.set_eq_fold)
  then show ?thesis using Cons assms by (auto simp: np_max_def)
qed

lemma np_row_Inr: "np_row M i = Inr row \<Longrightarrow> i < length M \<and> row = M ! i"
  by (auto simp: np_row_def split: if_splits)

lemma np_get_Inr: "np_get M i j = Inr v \<Longrightarrow> i < length M \<and> j < length (M ! i) \<and> v = M ! i ! j"
  by (auto simp: np_get_def split: if_splits)

lemma np_set_Inr:
  "np_set M i j v = Inr M' \<Longrightarrow> i < length M \<and> j < length (M ! i) \<and> M' = M[i := (M ! i)[j := v]]"
  by (auto simp: np_set_def split: if_splits)

lemma bindE_Inr: "bindE m f = Inr y \<Longrightarrow> \<exists>x. m = Inr x \<and> f x = Inr y"
  by (cases m) (simp_all add: bindE_def)

lemma q_step_unfold:
  assumes sel: "q_select Q env rng sigma s g = Inr (a, g')"
      and st: "step env e a = ((ss, r, d), e')"
      and res: "q_step Q env rng sigma s e g = Inr out"
  shows "ss < length Q \<and> Q ! ss \<noteq> [] \<and> s < length Q \<and> a < length (Q ! s) \<and>
         out = (Q[s := (Q ! s)[a := Q ! s ! a + lr * (r + gamma * Max (set (Q ! ss)) - Q ! s ! a)]],
                ss, r, d, e', g')"
proof -
  from res sel st obtain row' where
    r1: "np_row Q ss = Inr row'" and
    k1: "bindE (np_max row') (\<lambda>m. bindE (np_get Q s a) (\<lambda>q.
           let delta = r + gamma * m - q in
           bindE (np_set Q s a (q + lr * delta)) (\<lambda>Q'. Inr (Q', ss, r, d, e', g')))) = Inr out"
    by (auto simp: q_step_def bindE_def split: sum.splits)
  from bindE_Inr[OF k1] obtain m where
    r2: "np_max row' = Inr m" and
    k2: "bindE (np_get Q s a) (\<lambda>q.
           let delta = r + gamma * m - q in
           bindE (np_set Q s a (q + lr * delta)) (\<lambda>Q'. Inr (Q', ss, r, d, e', g'))) = Inr out"
    by blast
  from bindE_Inr[OF k2] obtain q where
    r3: "np_get Q s a = Inr q" and
    k3: "bindE (np_set Q s a (q + lr * (r + gamma * m - q))) (\<lambda>Q'. Inr (Q', ss, r, d, e', g')) = Inr out"
    by (auto simp: Let_def)
  from bindE_Inr[OF k3] obtain Q' where
    r4: "np_set Q s a (q + lr * (r + gamma * m - q)) = Inr Q'" and
    k4: "out = (Q', ss, r, d, e', g')"
    by auto
  show ?thesis
    using np_row_Inr[OF r1] np_max_Inr[OF r2] np_get_Inr[OF r3] np_set_Inr[OF r4] k4 by simp
qed

lemma chain_q_select:
  "q_select [[0, 0], [2, 5], [0, 0]] chain_env const_rng 1 0 () = Inr (0, ())"
  by (simp add: q_select_def bindE_def np_row_def chain_env_def const_rng_def numeral_2_eq_2
        np_add_def np_broadcast_def np_argmax_def)

lemma chain_step0: "step chain_env 0 0 = ((1, 1, False), 1)"
  by (simp add: chain_env_def)

lemma chain_q_step:
  "q_step [[0, 0], [2, 5], [0, 0]] chain_env const_rng 1 0 0 ()
     = Inr ([[23 / 5, 0], [2, 5], [0, 0]], 1, 1, False, 1, ())"
  by (simp add: q_step_def chain_q_select chain_step0 bindE_def np_row_def np_max_def np_get_def
        np_set_def lr_def gamma_def)

text \<open>
  C3. A step of Q-learning in state \<open>s\<close> that selects \<open>a\<close> and observes reward \<open>r\<close> and
  successor \<open>ss\<close> sets \<open>Q[s,a]\<close> to \<open>Q[s,a] + lr * (r + gamma * max Q[ss,:] - Q[s,a])\<close>,
  read from the table before the step; the maximum is over the whole row of the
  successor: it bounds every entry of the row and is one of them. The learning rate and
  the discount are the notebook's constants 0.8 and 0.95.
\<close>

theorem q_step_update_rule:
  assumes "q_select Q env rng sigma s g = Inr (a, g')"
      and "step env e a = ((ss, r, d), e')"
      and "q_step Q env rng sigma s e g = Inr (Q', out)"
  shows "Q' ! s ! a = Q ! s ! a + lr * (r + gamma * Max (set (Q ! ss)) - Q ! s ! a) \<and>
         (\<forall>a' < length (Q ! ss). Q ! ss ! a' \<le> Max (set (Q ! ss))) \<and>
         (\<exists>a' < length (Q ! ss). Q ! ss ! a' = Max (set (Q ! ss)))"
proof -
  from q_step_unfold[OF assms] have
    rng: "ss < length Q" "Q ! ss \<noteq> []" "s < length Q" "a < length (Q ! s)" and
    Q': "Q' = Q[s := (Q ! s)[a := Q ! s ! a + lr * (r + gamma * Max (set (Q ! ss)) - Q ! s ! a)]]"
    by simp_all
  have "Max (set (Q ! ss)) \<in> set (Q ! ss)" using rng(2) by (intro Max_in) simp_all
  then have ex: "\<exists>a' < length (Q ! ss). Q ! ss ! a' = Max (set (Q ! ss))"
    by (simp add: in_set_conv_nth)
  have "\<forall>a' < length (Q ! ss). Q ! ss ! a' \<le> Max (set (Q ! ss))"
    by simp
  then show ?thesis using ex rng Q' by simp
qed

theorem q_step_update_rule_witness:
  "q_step [[0, 0], [2, 5], [0, 0]] chain_env const_rng 1 0 0 ()
     = Inr ([[23 / 5, 0], [2, 5], [0, 0]], 1, 1, False, 1, ()) \<and>
   [[23 / 5, 0], [2, 5], [0, 0]] ! 0 ! 0 = [[0, 0], [2, 5], [0, 0]] ! 0 ! 0 +
      lr * (1 + gamma * Max (set ([[0, 0], [2, 5], [0, 0]] ! 1)) - [[0, 0], [2, 5], [0, 0 :: real]] ! 0 ! 0)"
  using q_step_update_rule[OF chain_q_select chain_step0 chain_q_step] chain_q_step by simp

text \<open>
  C10. A step of Q-learning that selects \<open>a\<close> in state \<open>s\<close> returns the successor, the
  reward and the done flag of its one call of \<^verbatim>\<open>env.step\<close>, leaves the environment
  in the state after that call, keeps the shape of the table and changes no entry of it
  other than \<open>Q[s,a]\<close>.
\<close>

theorem q_step_frame:
  assumes "q_select Q env rng sigma s g = Inr (a, g')"
      and "step env e a = ((ss, r, d), e')"
      and "q_step Q env rng sigma s e g = Inr (Q', ss', r', d', e'', g'')"
  shows "(ss', r', d') = (ss, r, d) \<and> e'' = e' \<and> g'' = g' \<and>
         length Q' = length Q \<and>
         (\<forall>i < length Q. length (Q' ! i) = length (Q ! i)) \<and>
         (\<forall>i < length Q. \<forall>j < length (Q ! i). (i, j) \<noteq> (s, a) \<longrightarrow> Q' ! i ! j = Q ! i ! j)"
proof -
  from q_step_unfold[OF assms] obtain v where
    Q': "Q' = Q[s := (Q ! s)[a := v]]" and
    rest: "ss' = ss" "r' = r" "d' = d" "e'' = e'" "g'' = g'" and
    s: "s < length Q"
    by simp
  have "\<forall>i < length Q. length (Q' ! i) = length (Q ! i)"
    using s by (auto simp: Q' nth_list_update)
  moreover have "\<forall>i < length Q. \<forall>j < length (Q ! i). (i, j) \<noteq> (s, a) \<longrightarrow> Q' ! i ! j = Q ! i ! j"
    using s by (auto simp: Q' nth_list_update)
  ultimately show ?thesis using rest Q' by simp
qed

theorem q_step_frame_witness:
  "q_step [[0, 0], [2, 5], [0, 0]] chain_env const_rng 1 0 0 ()
     = Inr ([[23 / 5, 0], [2, 5], [0, 0]], 1, 1, False, 1, ()) \<and>
   (1, 1, False) = fst (step chain_env 0 0) \<and>
   [[23 / 5, 0], [2, 5], [0, 0]] ! 0 ! 1 = [[0, 0], [2, 5], [0, 0 :: real]] ! 0 ! 1 \<and>
   [[23 / 5, 0], [2, 5], [0, 0]] ! 1 = [[0, 0], [2, 5], [0, 0 :: real]] ! 1 \<and>
   [[23 / 5, 0], [2, 5], [0, 0]] ! 2 = [[0, 0], [2, 5], [0, 0 :: real]] ! 2"
  using q_step_frame[OF chain_q_select chain_step0 chain_q_step] chain_q_step chain_step0
  by simp

section \<open>Sampling an episode: when the loop stops\<close>

lemma rg_cfg_0: "rg_cfg env rng policy 0 c = c"
  by (simp add: rg_cfg_def)

lemma rg_cfg_Suc: "rg_cfg env rng policy (Suc k) c = rg_cfg env rng policy k (rg_next env rng policy c)"
  by (simp add: rg_cfg_def funpow_swap1)

lemma run_game_loop_unfold:
  assumes ok: "rg_ok env policy (e, g, s)"
  shows "run_game_loop env rng policy e g s trace =
           (if rg_done env rng policy (e, g, s)
            then Some (Inr (trace @ [rg_trans env rng policy (e, g, s)],
                            fst (rg_next env rng policy (e, g, s)),
                            fst (snd (rg_next env rng policy (e, g, s)))))
            else (case rg_next env rng policy (e, g, s) of
                    (e', g', ss) \<Rightarrow>
                      run_game_loop env rng policy e' g' ss
                        (trace @ [rg_trans env rng policy (e, g, s)])))"
proof -
  obtain a g' where ch: "choice_p rng g (policy ! s) = (a, g')"
    by (cases "choice_p rng g (policy ! s)")
  obtain ss r d e' where st: "step env e a = ((ss, r, d), e')"
    by (cases "step env e a") auto
  show ?thesis
    using ok ch st
    by (subst run_game_loop.simps)
       (simp add: rg_ok_def np_row_def np_choice_p_def rg_done_def rg_act_def rg_trans_def
          rg_next_def)
qed

lemma run_game_loop_error:
  assumes "\<not> rg_ok env policy (e, g, s)"
  shows "\<exists>err. run_game_loop env rng policy e g s trace = Some (Inl err)"
  using assms
  by (subst run_game_loop.simps) (auto simp: rg_ok_def np_row_def np_choice_p_def)

lemma run_game_loop_returns:
  assumes "rg_done env rng policy (rg_cfg env rng policy k (e, g, s))"
      and "\<forall>j<k. \<not> rg_done env rng policy (rg_cfg env rng policy j (e, g, s))"
      and "\<forall>j\<le>k. rg_ok env policy (rg_cfg env rng policy j (e, g, s))"
  shows "run_game_loop env rng policy e g s trace =
           Some (Inr (trace @ map (\<lambda>j. rg_trans env rng policy (rg_cfg env rng policy j (e, g, s)))
                                  [0..<Suc k],
                      fst (rg_cfg env rng policy (Suc k) (e, g, s)),
                      fst (snd (rg_cfg env rng policy (Suc k) (e, g, s)))))"
  using assms
proof (induction k arbitrary: e g s trace)
  case 0
  then show ?case
    by (simp add: run_game_loop_unfold rg_cfg_0 rg_cfg_Suc)
next
  case (Suc k)
  obtain e' g' ss where nxt: "rg_next env rng policy (e, g, s) = (e', g', ss)"
    by (cases "rg_next env rng policy (e, g, s)")
  have ok0: "rg_ok env policy (e, g, s)"
    using Suc.prems(3)[rule_format, of 0] by (simp add: rg_cfg_0)
  have nd0: "\<not> rg_done env rng policy (e, g, s)"
    using Suc.prems(2)[rule_format, of 0] by (simp add: rg_cfg_0)
  have d: "rg_done env rng policy (rg_cfg env rng policy k (e', g', ss))"
    using Suc.prems(1) by (simp add: rg_cfg_Suc nxt)
  have nd: "\<forall>j<k. \<not> rg_done env rng policy (rg_cfg env rng policy j (e', g', ss))"
  proof (intro allI impI)
    fix j assume "j < k"
    then have "Suc j < Suc k" by simp
    from Suc.prems(2)[rule_format, OF this]
    show "\<not> rg_done env rng policy (rg_cfg env rng policy j (e', g', ss))"
      by (simp add: rg_cfg_Suc nxt)
  qed
  have ok: "\<forall>j\<le>k. rg_ok env policy (rg_cfg env rng policy j (e', g', ss))"
  proof (intro allI impI)
    fix j assume "j \<le> k"
    then have "Suc j \<le> Suc k" by simp
    from Suc.prems(3)[rule_format, OF this]
    show "rg_ok env policy (rg_cfg env rng policy j (e', g', ss))"
      by (simp add: rg_cfg_Suc nxt)
  qed
  have shift: "[0..<Suc (Suc k)] = 0 # map Suc [0..<Suc k]"
    by (simp only: map_Suc_upt upt_conv_Cons[of 0 "Suc (Suc k)"] zero_less_Suc)
  have "run_game_loop env rng policy e g s trace =
          run_game_loop env rng policy e' g' ss (trace @ [rg_trans env rng policy (e, g, s)])"
    using nd0 nxt by (simp add: run_game_loop_unfold[OF ok0])
  also have "\<dots> = Some (Inr ((trace @ [rg_trans env rng policy (e, g, s)]) @
                      map (\<lambda>j. rg_trans env rng policy (rg_cfg env rng policy j (e', g', ss)))
                          [0..<Suc k],
                      fst (rg_cfg env rng policy (Suc k) (e', g', ss)),
                      fst (snd (rg_cfg env rng policy (Suc k) (e', g', ss)))))"
    by (rule Suc.IH[OF d nd ok])
  finally show ?case
    unfolding shift
    by (simp add: rg_cfg_Suc[of _ _ _ _ "(e, g, s)"] nxt rg_cfg_0 comp_def del: upt_Suc)
qed

lemma run_game_loop_stops:
  assumes "run_game_loop env rng policy e g s trace = Some y"
  shows "\<exists>k. (\<forall>j<k. \<not> rg_done env rng policy (rg_cfg env rng policy j (e, g, s)) \<and>
                   rg_ok env policy (rg_cfg env rng policy j (e, g, s))) \<and>
             (case y of
                Inl err \<Rightarrow> \<not> rg_ok env policy (rg_cfg env rng policy k (e, g, s))
              | Inr res \<Rightarrow> rg_ok env policy (rg_cfg env rng policy k (e, g, s)) \<and>
                           rg_done env rng policy (rg_cfg env rng policy k (e, g, s)))"
proof (rule run_game_loop.raw_induct[OF _ assms, where P = "\<lambda>env rng policy e g s trace y.
    \<exists>k. (\<forall>j<k. \<not> rg_done env rng policy (rg_cfg env rng policy j (e, g, s)) \<and>
                   rg_ok env policy (rg_cfg env rng policy j (e, g, s))) \<and>
             (case y of
                Inl err \<Rightarrow> \<not> rg_ok env policy (rg_cfg env rng policy k (e, g, s))
              | Inr res \<Rightarrow> rg_ok env policy (rg_cfg env rng policy k (e, g, s)) \<and>
                           rg_done env rng policy (rg_cfg env rng policy k (e, g, s)))"], goal_cases)
  case (1 loop env rng policy e g s trace y)
  let ?c = "(e, g, s)"
  show ?case
  proof (cases "rg_ok env policy ?c")
    case False
    then have "\<exists>err. y = Inl err"
      using 1(2) by (auto simp: rg_ok_def np_row_def np_choice_p_def split: if_splits)
    then show ?thesis using False by (intro exI[of _ 0]) (auto simp: rg_cfg_0)
  next
    case ok: True
    obtain a g' where ch: "choice_p rng g (policy ! s) = (a, g')"
      by (cases "choice_p rng g (policy ! s)")
    obtain ss r d e' where st: "step env e a = ((ss, r, d), e')"
      by (cases "step env e a") auto
    have nxt: "rg_next env rng policy ?c = (e', g', ss)"
      using ch st by (simp add: rg_next_def rg_act_def)
    have dn: "rg_done env rng policy ?c = d"
      using ch st by (simp add: rg_done_def rg_act_def)
    show ?thesis
    proof (cases d)
      case True
      then have "\<exists>res. y = Inr res"
        using 1(2) ok ch st by (auto simp: rg_ok_def np_row_def np_choice_p_def)
      then show ?thesis using ok dn True by (intro exI[of _ 0]) (auto simp: rg_cfg_0)
    next
      case False
      then have "loop env rng policy e' g' ss (trace @ [(s, a, r)]) = Some y"
        using 1(2) ok ch st by (auto simp: rg_ok_def np_row_def np_choice_p_def)
      from 1(1)[OF this] obtain k where
        before: "\<forall>j<k. \<not> rg_done env rng policy (rg_cfg env rng policy j (e', g', ss)) \<and>
                   rg_ok env policy (rg_cfg env rng policy j (e', g', ss))" and
        at: "case y of
                Inl err \<Rightarrow> \<not> rg_ok env policy (rg_cfg env rng policy k (e', g', ss))
              | Inr res \<Rightarrow> rg_ok env policy (rg_cfg env rng policy k (e', g', ss)) \<and>
                           rg_done env rng policy (rg_cfg env rng policy k (e', g', ss))"
        by blast
      have "\<forall>j<Suc k. \<not> rg_done env rng policy (rg_cfg env rng policy j ?c) \<and>
                   rg_ok env policy (rg_cfg env rng policy j ?c)"
      proof (intro allI impI)
        fix j assume "j < Suc k"
        then show "\<not> rg_done env rng policy (rg_cfg env rng policy j ?c) \<and>
                   rg_ok env policy (rg_cfg env rng policy j ?c)"
          using before ok dn False by (cases j) (simp_all add: rg_cfg_0 rg_cfg_Suc nxt)
      qed
      moreover have "case y of
                Inl err \<Rightarrow> \<not> rg_ok env policy (rg_cfg env rng policy (Suc k) ?c)
              | Inr res \<Rightarrow> rg_ok env policy (rg_cfg env rng policy (Suc k) ?c) \<and>
                           rg_done env rng policy (rg_cfg env rng policy (Suc k) ?c)"
        using at by (cases y) (simp_all add: rg_cfg_Suc nxt)
      ultimately show ?thesis by blast
    qed
  qed
qed

lemma run_game_loop_diverges:
  assumes "\<forall>k. rg_ok env policy (rg_cfg env rng policy k (e, g, s)) \<and>
               \<not> rg_done env rng policy (rg_cfg env rng policy k (e, g, s))"
  shows "run_game_loop env rng policy e g s trace = None"
proof (cases "run_game_loop env rng policy e g s trace")
  case None
  then show ?thesis .
next
  case (Some y)
  from run_game_loop_stops[OF Some] assms show ?thesis
    by (cases y) auto
qed

lemma q_step_counts_one:
  assumes "q_step Q (counting env) rng sigma s (e, c) g = Inr (Q', ss, r, d, (e', c'), g')"
  shows "c' = Suc c"
proof -
  from assms obtain a g1 where
    k1: "(case step (counting env) (e, c) a of
         ((ss, r, d), e') \<Rightarrow>
           bindE (np_row Q ss) (\<lambda>row'.
           bindE (np_max row') (\<lambda>m.
           bindE (np_get Q s a) (\<lambda>q.
           let delta = r + gamma * m - q in
           bindE (np_set Q s a (q + lr * delta)) (\<lambda>Q'.
           Inr (Q', ss, r, d, e', g1)))))) = Inr (Q', ss, r, d, (e', c'), g')"
    unfolding q_step_def by (auto dest!: bindE_Inr)
  obtain obs e1 where st: "step env e a = (obs, e1)" by (cases "step env e a")
  obtain s1 r1 d1 where obs: "obs = (s1, r1, d1)" by (cases obs)
  have "step (counting env) (e, c) a = ((s1, r1, d1), (e1, Suc c))"
    using st obs by (simp add: counting_def)
  with k1 show ?thesis
    by (auto simp: Let_def dest!: bindE_Inr)
qed

lemma q_episode_counts:
  "q_episode (counting env) rng sigma n (Q, s, rTot, (e, c), g) = Inr (Q', s', rTot', (e', c'), g')
     \<Longrightarrow> c' \<le> c + n"
proof (induction n arbitrary: Q s rTot e c g)
  case 0
  then show ?case by simp
next
  case (Suc n)
  from Suc.prems obtain Q1 s1 r1 d1 e1 c1 g1 where
    st: "q_step Q (counting env) rng sigma s (e, c) g = Inr (Q1, s1, r1, d1, (e1, c1), g1)" and
    k: "(if d1 then Inr (Q1, s1, rTot + r1, (e1, c1), g1)
         else q_episode (counting env) rng sigma n (Q1, s1, rTot + r1, (e1, c1), g1))
          = Inr (Q', s', rTot', (e', c'), g')"
    by (auto dest!: bindE_Inr)
  have c1: "c1 = Suc c" using q_step_counts_one[OF st] .
  show ?case
  proof (cases d1)
    case True
    then show ?thesis using k c1 by simp
  next
    case False
    then have "q_episode (counting env) rng sigma n (Q1, s1, rTot + r1, (e1, c1), g1)
                = Inr (Q', s', rTot', (e', c'), g')" using k by simp
    from Suc.IH[OF this] show ?thesis using c1 by simp
  qed
qed

lemma chain_run_game:
  "run_game chain_env const_rng (np_full 3 2 (1 / 2)) 0 ()
     = Some (Inr ([(0, 0, 1), (1, 0, 1)], 2, ()))"
  by (simp add: run_game_def run_game_loop.simps np_row_def np_choice_p_def valid_p_def
        chain_env_def const_rng_def np_full_def numeral_3_eq_3 numeral_2_eq_2)

lemma chain_start: "rg_start chain_env 0 () = (0, (), 0)"
  by (simp add: rg_start_def chain_env_def)

lemma chain_next0:
  "rg_next chain_env const_rng (np_full 3 2 (1 / 2)) (0, (), 0) = (Suc 0, (), Suc 0)"
  by (simp add: rg_next_def rg_act_def chain_env_def const_rng_def)

lemma chain_cfg1:
  "rg_cfg chain_env const_rng (np_full 3 2 (1 / 2)) (Suc 0) (0, (), 0) = (Suc 0, (), Suc 0)"
  by (simp add: rg_cfg_def chain_next0)

lemma chain_done1:
  "rg_done chain_env const_rng (np_full 3 2 (1 / 2))
     (rg_cfg chain_env const_rng (np_full 3 2 (1 / 2)) 1 (rg_start chain_env 0 ()))"
  by (simp add: chain_start chain_cfg1) (simp add: rg_done_def rg_act_def chain_env_def const_rng_def)

lemma chain_ok:
  "\<forall>j\<le>1. rg_ok chain_env (np_full 3 2 (1 / 2))
     (rg_cfg chain_env const_rng (np_full 3 2 (1 / 2)) j (rg_start chain_env 0 ()))"
proof (intro allI impI)
  fix j :: nat assume "j \<le> 1"
  then consider "j = 0" | "j = 1" by linarith
  then show "rg_ok chain_env (np_full 3 2 (1 / 2))
     (rg_cfg chain_env const_rng (np_full 3 2 (1 / 2)) j (rg_start chain_env 0 ()))"
  proof cases
    case 1
    then show ?thesis
      by (simp add: chain_start rg_cfg_0)
         (simp add: rg_ok_def valid_p_def chain_env_def np_full_def numeral_3_eq_3 numeral_2_eq_2)
  next
    case 2
    then show ?thesis
      by (simp add: chain_start chain_cfg1)
         (simp add: rg_ok_def valid_p_def chain_env_def np_full_def numeral_3_eq_3 numeral_2_eq_2)
  qed
qed

lemma endless_cfg:
  "rg_cfg endless_env const_rng [[1]] k (rg_start endless_env () ()) = ((), (), 0)"
proof (induction k)
  case 0
  show ?case by (simp add: rg_cfg_0 rg_start_def endless_env_def)
next
  case (Suc k)
  have "rg_next endless_env const_rng [[1]] ((), (), 0) = ((), (), 0)"
    by (simp add: rg_next_def rg_act_def endless_env_def const_rng_def)
  then show ?case using Suc by (simp add: rg_cfg_def)
qed

lemma endless_never_done:
  "\<forall>k. rg_ok endless_env [[1]] (rg_cfg endless_env const_rng [[1]] k (rg_start endless_env () ())) \<and>
       \<not> rg_done endless_env const_rng [[1]]
           (rg_cfg endless_env const_rng [[1]] k (rg_start endless_env () ()))"
  by (simp add: endless_cfg)
     (simp add: rg_ok_def valid_p_def rg_done_def rg_act_def endless_env_def const_rng_def)

lemma chain_q_episode:
  "q_episode (counting chain_env) const_rng 1 5 (np_zeros 3 2, 0, 0, (0, 0), ())
     = Inr ([[4 / 5, 0], [4 / 5, 0], [0, 0]], 2, 2, (2, 2), ())"
  by (simp add: eval_nat_numeral q_step_def q_select_def bindE_def np_row_def np_max_def
        np_get_def np_set_def np_add_def np_broadcast_def np_argmax_def np_zeros_def counting_def
        chain_env_def const_rng_def lr_def gamma_def)

lemma steps_trace_shape:
  fixes f :: "nat \<Rightarrow> transition"
  shows "length (map f [0..<Suc n]) = Suc n \<and> map f [0..<Suc n] \<noteq> [] \<and>
         (\<forall>j\<le>n. map f [0..<Suc n] ! j = f j) \<and> last (map f [0..<Suc n]) = f n"
proof -
  have "\<forall>j\<le>n. map f [0..<Suc n] ! j = f j"
  proof (intro allI impI)
    fix j assume j: "j \<le> n"
    then have "j < length [0..<Suc n]" by simp
    then have "map f [0..<Suc n] ! j = f ([0..<Suc n] ! j)" by (rule nth_map)
    moreover have "[0..<Suc n] ! j = j" using j by (simp add: nth_append)
    ultimately show "map f [0..<Suc n] ! j = f j" by simp
  qed
  then show ?thesis by simp
qed

text \<open>
  C9. Every trace that \<open>run_game\<close> returns is not empty and holds the transitions of
  the steps \<open>0..n\<close> of the game in order, where step \<open>n\<close> is the first one at which the
  environment signals done: the last element is the transition of that step and nothing
  follows it. And \<open>run_game\<close> does return a trace, of at most \<open>k + 1\<close> transitions,
  when the environment signals done at step \<open>k\<close> and the rows of the policy read up to
  there are accepted by the sampler.
\<close>

theorem run_game_trace_ends_at_done:
  "(run_game env rng policy e g = Some (Inr (trace, e', g')) \<longrightarrow>
      (\<exists>n. length trace = Suc n \<and> trace \<noteq> [] \<and>
           (\<forall>j\<le>n. trace ! j = rg_trans env rng policy (rg_cfg env rng policy j (rg_start env e g))) \<and>
           last trace = rg_trans env rng policy (rg_cfg env rng policy n (rg_start env e g)) \<and>
           rg_done env rng policy (rg_cfg env rng policy n (rg_start env e g)) \<and>
           (\<forall>j<n. \<not> rg_done env rng policy (rg_cfg env rng policy j (rg_start env e g))))) \<and>
   (rg_done env rng policy (rg_cfg env rng policy k (rg_start env e g)) \<and>
    (\<forall>j\<le>k. rg_ok env policy (rg_cfg env rng policy j (rg_start env e g))) \<longrightarrow>
      (\<exists>tr e1 g1. run_game env rng policy e g = Some (Inr (tr, e1, g1)) \<and> length tr \<le> Suc k))"
proof (intro conjI impI)
  obtain s e0 where rs: "reset env e = (s, e0)" by (cases "reset env e")
  let ?c = "(e0, g, s)"
  let ?f = "\<lambda>j. rg_trans env rng policy (rg_cfg env rng policy j ?c)"
  have start: "rg_start env e g = ?c" using rs by (simp add: rg_start_def)
  have run: "run_game env rng policy e g = run_game_loop env rng policy e0 g s []"
    using rs by (simp add: run_game_def)
  {
    assume ret: "run_game env rng policy e g = Some (Inr (trace, e', g'))"
    from run_game_loop_stops[OF ret[unfolded run]] obtain n where
      before: "\<forall>j<n. \<not> rg_done env rng policy (rg_cfg env rng policy j ?c) \<and>
                   rg_ok env policy (rg_cfg env rng policy j ?c)" and
      at: "rg_ok env policy (rg_cfg env rng policy n ?c)"
          "rg_done env rng policy (rg_cfg env rng policy n ?c)"
      by auto
    have first: "\<forall>j<n. \<not> rg_done env rng policy (rg_cfg env rng policy j ?c)"
      using before by simp
    have okn: "\<forall>j\<le>n. rg_ok env policy (rg_cfg env rng policy j ?c)"
      using before at(1) by (auto simp: le_less)
    have "run_game_loop env rng policy e0 g s [] =
            Some (Inr ([] @ map ?f [0..<Suc n], fst (rg_cfg env rng policy (Suc n) ?c),
                       fst (snd (rg_cfg env rng policy (Suc n) ?c))))"
      by (rule run_game_loop_returns[OF at(2) first okn])
    then have tr: "trace = map ?f [0..<Suc n]"
      using ret run by simp
    show "\<exists>n. length trace = Suc n \<and> trace \<noteq> [] \<and>
           (\<forall>j\<le>n. trace ! j = rg_trans env rng policy (rg_cfg env rng policy j (rg_start env e g))) \<and>
           last trace = rg_trans env rng policy (rg_cfg env rng policy n (rg_start env e g)) \<and>
           rg_done env rng policy (rg_cfg env rng policy n (rg_start env e g)) \<and>
           (\<forall>j<n. \<not> rg_done env rng policy (rg_cfg env rng policy j (rg_start env e g)))"
      unfolding start tr
      using steps_trace_shape[of ?f n] at(2) first by (intro exI[of _ n]) blast
  }
  {
    assume pre: "rg_done env rng policy (rg_cfg env rng policy k (rg_start env e g)) \<and>
      (\<forall>j\<le>k. rg_ok env policy (rg_cfg env rng policy j (rg_start env e g)))"
    then have ev: "rg_done env rng policy (rg_cfg env rng policy k ?c)" and
      ok: "\<forall>j\<le>k. rg_ok env policy (rg_cfg env rng policy j ?c)"
      unfolding start by simp_all
    define n where "n = (LEAST j. rg_done env rng policy (rg_cfg env rng policy j ?c))"
    have dn: "rg_done env rng policy (rg_cfg env rng policy n ?c)"
      unfolding n_def using ev by (rule LeastI)
    have nk: "n \<le> k"
      unfolding n_def using ev by (rule Least_le)
    have first: "\<forall>j<n. \<not> rg_done env rng policy (rg_cfg env rng policy j ?c)"
      unfolding n_def using not_less_Least by blast
    have okn: "\<forall>j\<le>n. rg_ok env policy (rg_cfg env rng policy j ?c)"
      using ok nk by simp
    have "run_game_loop env rng policy e0 g s [] =
            Some (Inr ([] @ map ?f [0..<Suc n], fst (rg_cfg env rng policy (Suc n) ?c),
                       fst (snd (rg_cfg env rng policy (Suc n) ?c))))"
      by (rule run_game_loop_returns[OF dn first okn])
    then have "run_game env rng policy e g =
            Some (Inr (map ?f [0..<Suc n], fst (rg_cfg env rng policy (Suc n) ?c),
                       fst (snd (rg_cfg env rng policy (Suc n) ?c))))"
      using run by simp
    moreover have "length (map ?f [0..<Suc n]) \<le> Suc k" using nk by simp
    ultimately show "\<exists>tr e1 g1. run_game env rng policy e g = Some (Inr (tr, e1, g1)) \<and>
        length tr \<le> Suc k"
      by blast
  }
qed

theorem run_game_trace_ends_at_done_witness:
  "run_game chain_env const_rng (np_full 3 2 (1 / 2)) 0 ()
     = Some (Inr ([(0, 0, 1), (1, 0, 1)], 2, ())) \<and>
   (\<exists>n. length ([(0, 0, 1), (1, 0, 1)] :: transition list) = Suc n \<and>
      last [(0, 0, 1), (1, 0, 1)] = rg_trans chain_env const_rng (np_full 3 2 (1 / 2))
                     (rg_cfg chain_env const_rng (np_full 3 2 (1 / 2)) n (rg_start chain_env 0 ())) \<and>
      rg_done chain_env const_rng (np_full 3 2 (1 / 2))
        (rg_cfg chain_env const_rng (np_full 3 2 (1 / 2)) n (rg_start chain_env 0 ()))) \<and>
   rg_done chain_env const_rng (np_full 3 2 (1 / 2))
     (rg_cfg chain_env const_rng (np_full 3 2 (1 / 2)) 1 (rg_start chain_env 0 ())) \<and>
   (\<exists>tr e1 g1. run_game chain_env const_rng (np_full 3 2 (1 / 2)) 0 () = Some (Inr (tr, e1, g1)) \<and>
      length tr \<le> Suc 1)"
proof -
  note inst = run_game_trace_ends_at_done[of chain_env const_rng "np_full 3 2 (1 / 2)" 0 "()"
      "[(0, 0, 1), (1, 0, 1)]" 2 "()" 1]
  have a: "\<exists>n. length ([(0, 0, 1), (1, 0, 1)] :: transition list) = Suc n \<and>
      last [(0, 0, 1), (1, 0, 1)] = rg_trans chain_env const_rng (np_full 3 2 (1 / 2))
                     (rg_cfg chain_env const_rng (np_full 3 2 (1 / 2)) n (rg_start chain_env 0 ())) \<and>
      rg_done chain_env const_rng (np_full 3 2 (1 / 2))
        (rg_cfg chain_env const_rng (np_full 3 2 (1 / 2)) n (rg_start chain_env 0 ()))"
    using mp[OF inst[THEN conjunct1] chain_run_game] by (elim exE conjE) (intro exI conjI; assumption)
  have b: "\<exists>tr e1 g1. run_game chain_env const_rng (np_full 3 2 (1 / 2)) 0 () = Some (Inr (tr, e1, g1)) \<and>
      length tr \<le> Suc 1"
    by (rule mp[OF inst[THEN conjunct2] conjI[OF chain_done1 chain_ok]])
  show ?thesis by (intro conjI chain_run_game a chain_done1 b)
qed

text \<open>
  C8, as the code has it. \<open>run_game\<close> takes no step cap. It returns a trace only if the
  environment signals done at some step, and on a game whose steps never signal done
  (the policy rows being accepted) it does not return. The episode loop of Q-learning is
  bounded by \<open>nsteps\<close>: it is defined by recursion on the steps that remain, so it always
  returns, and on an environment that counts its calls of \<^verbatim>\<open>step\<close> the counter
  grows by at most \<open>nsteps\<close>.
\<close>

theorem episode_loops_stop:
  "(run_game env rng policy e g = Some (Inr res) \<longrightarrow>
      (\<exists>k. rg_done env rng policy (rg_cfg env rng policy k (rg_start env e g)))) \<and>
   ((\<forall>k. rg_ok env policy (rg_cfg env rng policy k (rg_start env e g)) \<and>
         \<not> rg_done env rng policy (rg_cfg env rng policy k (rg_start env e g))) \<longrightarrow>
      run_game env rng policy e g = None) \<and>
   (q_episode (counting env2) rng2 sigma nsteps (Q, s, rTot, (e2, c), g2)
      = Inr (Q', s', rTot', (e2', c'), g2') \<longrightarrow> c' \<le> c + nsteps)"
proof (intro conjI impI)
  obtain s0 e0 where rs: "reset env e = (s0, e0)" by (cases "reset env e")
  have start: "rg_start env e g = (e0, g, s0)" using rs by (simp add: rg_start_def)
  {
    assume "run_game env rng policy e g = Some (Inr res)"
    then have "run_game_loop env rng policy e0 g s0 [] = Some (Inr res)"
      using rs by (simp add: run_game_def)
    from run_game_loop_stops[OF this]
    show "\<exists>k. rg_done env rng policy (rg_cfg env rng policy k (rg_start env e g))"
      unfolding start by auto
  }
  {
    assume "\<forall>k. rg_ok env policy (rg_cfg env rng policy k (rg_start env e g)) \<and>
         \<not> rg_done env rng policy (rg_cfg env rng policy k (rg_start env e g))"
    then have "run_game_loop env rng policy e0 g s0 [] = None"
      unfolding start by (rule run_game_loop_diverges)
    then show "run_game env rng policy e g = None"
      using rs by (simp add: run_game_def)
  }
next
  assume "q_episode (counting env2) rng2 sigma nsteps (Q, s, rTot, (e2, c), g2)
      = Inr (Q', s', rTot', (e2', c'), g2')"
  then show "c' \<le> c + nsteps" by (rule q_episode_counts)
qed

theorem episode_loops_stop_witness:
  "run_game chain_env const_rng (np_full 3 2 (1 / 2)) 0 ()
     = Some (Inr ([(0, 0, 1), (1, 0, 1)], 2, ())) \<and>
   (\<exists>k. rg_done chain_env const_rng (np_full 3 2 (1 / 2))
          (rg_cfg chain_env const_rng (np_full 3 2 (1 / 2)) k (rg_start chain_env 0 ()))) \<and>
   run_game endless_env const_rng [[1]] () () = None \<and>
   q_episode (counting chain_env) const_rng 1 5 (np_zeros 3 2, 0, 0, (0, 0), ())
     = Inr ([[4 / 5, 0], [4 / 5, 0], [0, 0]], 2, 2, (2, 2), ()) \<and>
   (2::nat) \<le> 0 + 5"
proof -
  note inst1 = episode_loops_stop[of chain_env const_rng "np_full 3 2 (1 / 2)" 0 "()"
      "([(0, 0, 1), (1, 0, 1)], 2, ())" chain_env const_rng 1 5 "np_zeros 3 2" 0 0 0 0 "()"
      "[[4 / 5, 0], [4 / 5, 0], [0, 0]]" 2 2 2 2 "()"]
  note inst2 = episode_loops_stop[of endless_env const_rng "[[1]]" "()" "()"]
  have a: "\<exists>k. rg_done chain_env const_rng (np_full 3 2 (1 / 2))
          (rg_cfg chain_env const_rng (np_full 3 2 (1 / 2)) k (rg_start chain_env 0 ()))"
    by (rule mp[OF inst1[THEN conjunct1] chain_run_game])
  have b: "run_game endless_env const_rng [[1]] () () = None"
    by (rule mp[OF inst2[THEN conjunct2, THEN conjunct1] endless_never_done])
  have c: "(2::nat) \<le> 0 + 5"
    by (rule mp[OF inst1[THEN conjunct2, THEN conjunct2] chain_q_episode])
  show ?thesis using a b c chain_run_game chain_q_episode by blast
qed

text \<open>
  The claim as stated fails: on an environment that never signals done, \<open>run_game\<close> does
  not return, and it has no parameter to cap the steps.
\<close>

theorem run_game_unbounded_counterexample:
  "run_game endless_env const_rng [[1]] () () = None"
proof -
  have "run_game_loop endless_env const_rng [[1]] () () 0 [] = None"
    using endless_never_done
    by (intro run_game_loop_diverges) (simp add: rg_start_def endless_env_def)
  then show ?thesis by (simp add: run_game_def endless_env_def)
qed

section \<open>Fitting an epsilon-soft policy: the rows of the policy\<close>

lemma np_fill_row_Inr:
  "np_fill_row M i v = Inr M' \<Longrightarrow> i < length M \<and> M' = M[i := replicate (length (M ! i)) v]"
  by (auto simp: np_fill_row_def split: if_splits)

lemma mc_visit_policy:
  assumes "mc_visit env rng eps ep i st = Inr st'"
  shows "mc_policy st' = mc_policy st \<or>
         (\<exists>s k. s < length (mc_policy st) \<and> k < length (mc_policy st ! s) \<and> nA env \<noteq> 0 \<and>
            mc_policy st' = (mc_policy st)[s :=
               (replicate (length (mc_policy st ! s)) (eps / real (nA env)))
                  [k := eps / real (nA env) + (1 - eps)]])"
proof -
  obtain s a r where tr: "ep ! i = (s, a, r)" by (cases "ep ! i")
  have i: "i < length ep" using assms by (auto simp: mc_visit_def split: if_splits)
  show ?thesis
  proof (cases "(s, a) \<in> set (map (\<lambda>x. (fst x, fst (snd x))) (take i ep))")
    case True
    then have "st' = st\<lparr>mc_G := mc_G st + r\<rparr>"
      using assms i tr by (simp add: mc_visit_def Let_def)
    then show ?thesis by simp
  next
    case False
    from assms i tr False obtain policy' policy'' k p where
      nz: "nA env \<noteq> 0" and
      fill: "np_fill_row (mc_policy st) s (eps / real (nA env)) = Inr policy'" and
      get: "np_get policy' s k = Inr p" and
      upd: "np_set policy' s k (p + (1 - eps)) = Inr policy''" and
      st': "mc_policy st' = policy''"
      by (auto simp: mc_visit_def Let_def dest!: bindE_Inr split: if_splits)
    from np_fill_row_Inr[OF fill] have
      s: "s < length (mc_policy st)" and
      p': "policy' = (mc_policy st)[s := replicate (length (mc_policy st ! s)) (eps / real (nA env))]"
      by simp_all
    from np_get_Inr[OF get] have
      k: "k < length (policy' ! s)" and p: "p = policy' ! s ! k" by simp_all
    have row: "policy' ! s = replicate (length (mc_policy st ! s)) (eps / real (nA env))"
      using s by (simp add: p')
    have k': "k < length (mc_policy st ! s)" using k row by simp
    have pv: "p = eps / real (nA env)" using p row k' by simp
    from np_set_Inr[OF upd] have "policy'' = policy'[s := (policy' ! s)[k := p + (1 - eps)]]"
      by simp
    then have "mc_policy st' = (mc_policy st)[s :=
               (replicate (length (mc_policy st ! s)) (eps / real (nA env)))
                  [k := eps / real (nA env) + (1 - eps)]]"
      using st' row pv by (simp add: p')
    then show ?thesis using s k' nz by blast
  qed
qed

lemma sum_list_update_real:
  "k < length xs \<Longrightarrow> sum_list (xs[k := x]) = sum_list xs + x - (xs ! k :: real)"
proof (induction xs arbitrary: k)
  case Nil
  then show ?case by simp
next
  case (Cons y ys)
  then show ?case by (cases k) simp_all
qed

lemma soft_row_sum:
  assumes "k < n" "n \<noteq> 0"
  shows "sum_list ((replicate n (eps / real n))[k := eps / real n + (1 - eps)]) = 1"
proof -
  have "sum_list ((replicate n (eps / real n))[k := eps / real n + (1 - eps)])
          = sum_list (replicate n (eps / real n)) + (eps / real n + (1 - eps))
              - replicate n (eps / real n) ! k"
    using assms(1) by (simp add: sum_list_update_real)
  also have "\<dots> = real n * (eps / real n) + (1 - eps)"
    using assms(1) by (simp add: sum_list_replicate)
  also have "\<dots> = 1" using assms(2) by simp
  finally show ?thesis .
qed

lemma mc_visit_policy_ok:
  assumes "policy_ok env (mc_policy st)" and "mc_visit env rng eps ep i st = Inr st'"
  shows "policy_ok env (mc_policy st')"
proof -
  from mc_visit_policy[OF assms(2)] show ?thesis
  proof
    assume "mc_policy st' = mc_policy st"
    then show ?thesis using assms(1) by simp
  next
    assume "\<exists>s k. s < length (mc_policy st) \<and> k < length (mc_policy st ! s) \<and> nA env \<noteq> 0 \<and>
            mc_policy st' = (mc_policy st)[s :=
               (replicate (length (mc_policy st ! s)) (eps / real (nA env)))
                  [k := eps / real (nA env) + (1 - eps)]]"
    then obtain s k where
      s: "s < length (mc_policy st)" and k: "k < length (mc_policy st ! s)" and
      nz: "nA env \<noteq> 0" and
      P: "mc_policy st' = (mc_policy st)[s :=
               (replicate (length (mc_policy st ! s)) (eps / real (nA env)))
                  [k := eps / real (nA env) + (1 - eps)]]"
      by blast
    have len: "length (mc_policy st ! s) = nA env"
      using assms(1) s by (simp add: policy_ok_def)
    let ?row = "(replicate (nA env) (eps / real (nA env)))[k := eps / real (nA env) + (1 - eps)]"
    have row: "length ?row = nA env \<and> sum_list ?row = 1"
      using soft_row_sum[of k "nA env" eps] k len nz by simp
    have "set (mc_policy st') \<subseteq> insert ?row (set (mc_policy st))"
      unfolding P len by (rule set_update_subset_insert)
    then show ?thesis
      using assms(1) row unfolding policy_ok_def by blast
  qed
qed

lemma mc_init_policy_ok:
  assumes "mc_init env g = Inr st"
  shows "policy_ok env (mc_policy st)"
proof -
  have nz: "nA env \<noteq> 0" using assms by (auto simp: mc_init_def split: if_splits)
  then have "mc_policy st = np_full (nS env) (nA env) (1 / real (nA env))"
    using assms by (auto simp: mc_init_def)
  then show ?thesis
    using nz by (auto simp: policy_ok_def np_full_def sum_list_replicate)
qed

lemma mc_reachable_policy_ok:
  "mc_reachable env rng eps st \<Longrightarrow> policy_ok env (mc_policy st)"
proof (induction rule: mc_reachable.induct)
  case (init g st)
  then show ?case by (rule mc_init_policy_ok)
next
  case (game st g')
  then show ?case by simp
next
  case (visit st ep i st')
  then show ?case using mc_visit_policy_ok by blast
qed

lemma foldE_mc_visit_reachable:
  "mc_reachable env rng eps st \<Longrightarrow> foldE (mc_visit env rng eps ep) idxs st = Inr st'
     \<Longrightarrow> mc_reachable env rng eps st'"
proof (induction idxs arbitrary: st)
  case Nil
  then show ?case by simp
next
  case (Cons i idxs)
  from Cons.prems(2) obtain st1 where
    v: "mc_visit env rng eps ep i st = Inr st1" and
    r: "foldE (mc_visit env rng eps ep) idxs st1 = Inr st'"
    by (auto dest!: bindE_Inr)
  have "mc_reachable env rng eps st1"
    using Cons.prems(1) v by (rule mc_reachable.visit)
  then show ?case using r by (rule Cons.IH)
qed

lemma mc_episodes_reachable:
  "mc_reachable env rng eps st \<Longrightarrow> mc_episodes env rng eps n (st, e) = Some (Inr (st', e'))
     \<Longrightarrow> mc_reachable env rng eps st'"
proof (induction n arbitrary: st e)
  case 0
  then show ?case by simp
next
  case (Suc n)
  from Suc.prems(2) obtain ep e1 g1 st1 where
    "foldE (mc_visit env rng eps ep) (rev [0..<length ep]) (st\<lparr>mc_G := 0, mc_gen := g1\<rparr>) = Inr st1"
    and rest: "mc_episodes env rng eps n (st1, e1) = Some (Inr (st', e'))"
    by (auto split: option.splits sum.splits)
  moreover have "mc_reachable env rng eps (st\<lparr>mc_G := 0, mc_gen := g1\<rparr>)"
    using Suc.prems(1) by (rule mc_reachable.game)
  ultimately have "mc_reachable env rng eps st1"
    using foldE_mc_visit_reachable by blast
  then show ?case using rest by (rule Suc.IH)
qed

lemma np_where_eq_set: "set (np_where_eq xs v) = {j. j < length xs \<and> xs ! j = v}"
  by (auto simp: np_where_eq_def)

lemma np_where_eq_distinct: "distinct (np_where_eq xs v)"
  by (simp add: np_where_eq_def)

lemma np_where_eq_sorted: "sorted (np_where_eq xs v)"
  by (simp add: np_where_eq_def sorted_wrt_filter)

lemma np_where_eq_max: "xs \<noteq> [] \<Longrightarrow> np_where_eq xs (Max (set xs)) \<noteq> []"
proof -
  assume "xs \<noteq> []"
  then have "Max (set xs) \<in> set xs" by (intro Max_in) simp_all
  then obtain j where "j < length xs" "xs ! j = Max (set xs)"
    by (auto simp: in_set_conv_nth)
  then have "j \<in> set (np_where_eq xs (Max (set xs)))" by (simp add: np_where_eq_set)
  then show ?thesis by auto
qed

lemma greedy_choice_Inr:
  assumes "greedy_choice rng g row = Inr (a, g')"
  shows "row \<noteq> [] \<and>
         a = np_where_eq row (Max (set row)) !
               fst (randint rng g (length (np_where_eq row (Max (set row))))) \<and>
         g' = snd (randint rng g (length (np_where_eq row (Max (set row)))))"
proof -
  from assms obtain m where m: "np_max row = Inr m" and
    c: "np_choice rng g (np_where_eq row m) = Inr (a, g')"
    by (auto simp: greedy_choice_def dest!: bindE_Inr)
  from np_max_Inr[OF m] have ne: "row \<noteq> []" and mv: "m = Max (set row)" by simp_all
  from c show ?thesis
    using ne mv by (auto simp: np_choice_def split: if_splits prod.splits)
qed

lemma first_index_props:
  "v \<in> set xs \<Longrightarrow>
     first_index v xs < length xs \<and> xs ! first_index v xs = v \<and>
     (\<forall>j < first_index v xs. xs ! j \<noteq> v)"
proof (induction xs)
  case Nil
  then show ?case by simp
next
  case (Cons x xs)
  show ?case
  proof (cases "x = v")
    case True
    then show ?thesis by simp
  next
    case False
    then have "v \<in> set xs" using Cons.prems by simp
    from Cons.IH[OF this] False show ?thesis
      by (auto simp: nth_Cons split: nat.splits)
  qed
qed

lemma np_argmax_Inr:
  assumes "np_argmax xs = Inr a"
  shows "a < length xs \<and> xs ! a = Max (set xs) \<and> (\<forall>j<a. xs ! j < xs ! a)"
proof -
  from assms obtain x ys where xs: "xs = x # ys" by (cases xs) (auto simp: np_argmax_def)
  have mx: "fold max ys x = Max (set xs)" unfolding xs by (simp only: Max.set_eq_fold)
  have "a = first_index (fold max ys x) xs"
    using assms by (simp add: np_argmax_def xs)
  then have a: "a = first_index (Max (set xs)) xs"
    by (simp only: mx)
  have "Max (set xs) \<in> set xs" by (intro Max_in) (simp_all add: xs)
  from first_index_props[OF this] have
    p: "a < length xs" "xs ! a = Max (set xs)" "\<forall>j<a. xs ! j \<noteq> Max (set xs)"
    unfolding a by simp_all
  have "\<forall>j<a. xs ! j < xs ! a"
  proof (intro allI impI)
    fix j assume j: "j < a"
    then have "xs ! j \<in> set xs" using p(1) by simp
    then have "xs ! j \<le> Max (set xs)" by simp
    then show "xs ! j < xs ! a" using p(2,3) j by (simp add: less_le)
  qed
  then show ?thesis using p by simp
qed

lemma chain_mc_init:
  "mc_init chain_env () =
     Inr \<lparr>mc_policy = np_full 3 2 (1 / 2), mc_Q = np_zeros 3 2, mc_rewards = np_zeros 3 2,
          mc_visits = np_zeros 3 2, mc_G = 0, mc_gen = ()\<rparr>"
  by (simp add: mc_init_def chain_env_def)

lemma chain_nA: "nA chain_env = 2"
  by (simp add: chain_env_def)

lemma const_randint: "randint const_rng g n = (0, ())"
  by (simp add: const_rng_def)

lemma chain_visit1:
  "mc_visit chain_env const_rng (1 / 10) [(0, 0, 1), (Suc 0, 0, 1)] (Suc 0)
     \<lparr>mc_policy = np_full 3 2 (1 / 2), mc_Q = np_zeros 3 2, mc_rewards = np_zeros 3 2,
          mc_visits = np_zeros 3 2, mc_G = 0, mc_gen = ()\<rparr>
   = Inr \<lparr>mc_policy = [[1 / 2, 1 / 2], [19 / 20, 1 / 20], [1 / 2, 1 / 2]],
          mc_Q = [[0, 0], [1, 0], [0, 0]], mc_rewards = [[0, 0], [1, 0], [0, 0]],
          mc_visits = [[0, 0], [1, 0], [0, 0]], mc_G = 1, mc_gen = ()\<rparr>"
  by (simp add: chain_nA const_randint mc_visit_def greedy_choice_def
        bindE_def np_get_def np_set_def np_row_def np_max_def np_choice_def np_where_eq_def
        np_fill_row_def np_full_def np_zeros_def numeral_3_eq_3 numeral_2_eq_2 Let_def)

lemma chain_visit0:
  "mc_visit chain_env const_rng (1 / 10) [(0, 0, 1), (Suc 0, 0, 1)] 0
     \<lparr>mc_policy = [[1 / 2, 1 / 2], [19 / 20, 1 / 20], [1 / 2, 1 / 2]],
          mc_Q = [[0, 0], [1, 0], [0, 0]], mc_rewards = [[0, 0], [1, 0], [0, 0]],
          mc_visits = [[0, 0], [1, 0], [0, 0]], mc_G = 1, mc_gen = ()\<rparr>
   = Inr \<lparr>mc_policy = [[19 / 20, 1 / 20], [19 / 20, 1 / 20], [1 / 2, 1 / 2]],
          mc_Q = [[2, 0], [1, 0], [0, 0]], mc_rewards = [[2, 0], [1, 0], [0, 0]],
          mc_visits = [[1, 0], [1, 0], [0, 0]], mc_G = 2, mc_gen = ()\<rparr>"
  by (simp add: chain_nA const_randint mc_visit_def greedy_choice_def
        bindE_def np_get_def np_set_def np_row_def np_max_def np_choice_def np_where_eq_def
        np_fill_row_def Let_def)

lemma chain_fit:
  "monte_carlo_e_soft chain_env const_rng 1 (1 / 10) 0 ()
     = Some (Inr ([[19 / 20, 1 / 20], [19 / 20, 1 / 20], [1 / 2, 1 / 2]], 2, ()))"
  by (simp add: monte_carlo_e_soft_def chain_mc_init chain_run_game chain_visit1 chain_visit0
        bindE_def)

lemma const_rng_ok: "rng_ok const_rng"
  by (simp add: rng_ok_def const_rng_def)

lemma greedy_tie: "greedy_choice const_rng () [1, 3, 3] = Inr (1, ())"
  by (simp add: greedy_choice_def bindE_def np_max_def np_choice_def np_where_eq_def
        const_randint upt_rec)

lemma noisy_select:
  "q_select [[1, 0], [0, 0], [0, 0]] chain_env counter_rng 2 0 0 = Inr (1, 2)"
  by (simp add: q_select_def bindE_def np_row_def chain_env_def counter_rng_def numeral_2_eq_2
        np_add_def np_broadcast_def np_argmax_def)

lemma first_select:
  "q_select [[0, 0], [0, 0], [0, 0]] chain_env counter_rng 0 0 g = Inr (0, Suc (Suc g))"
  by (simp add: q_select_def bindE_def np_row_def chain_env_def counter_rng_def numeral_2_eq_2
        np_add_def np_broadcast_def np_argmax_def)

text \<open>
  C4. In every state that the fit of the epsilon-soft policy passes through (the initial
  one, and the state after each pass of the inner loop, so after every update of the
  policy), each row of the policy table sums to 1; so does each row of the table that
  \<open>monte_carlo_e_soft\<close> returns. A row that was updated holds \<open>eps / nA\<close> everywhere
  and \<open>1 - eps\<close> more on the chosen arg-max (lemma \<open>mc_visit_policy\<close>).
\<close>

theorem e_soft_rows_sum_to_one:
  "(mc_reachable env rng eps st \<longrightarrow> (\<forall>row \<in> set (mc_policy st). sum_list row = 1)) \<and>
   (monte_carlo_e_soft env rng neps eps e g = Some (Inr (policy, e', g')) \<longrightarrow>
      (\<forall>row \<in> set policy. sum_list row = 1))"
proof (intro conjI impI)
  assume "mc_reachable env rng eps st"
  then show "\<forall>row \<in> set (mc_policy st). sum_list row = 1"
    using mc_reachable_policy_ok[of env rng eps st] by (simp add: policy_ok_def)
next
  assume "monte_carlo_e_soft env rng neps eps e g = Some (Inr (policy, e', g'))"
  then obtain st0 st where
    i: "mc_init env g = Inr st0" and
    r: "mc_episodes env rng eps neps (st0, e) = Some (Inr (st, e'))" and
    p: "policy = mc_policy st"
    by (auto simp: monte_carlo_e_soft_def split: sum.splits option.splits)
  have "mc_reachable env rng eps st0" using i by (rule mc_reachable.init)
  then have "mc_reachable env rng eps st" using r by (rule mc_episodes_reachable)
  then show "\<forall>row \<in> set policy. sum_list row = 1"
    using mc_reachable_policy_ok[of env rng eps st] p by (simp add: policy_ok_def)
qed

theorem e_soft_rows_sum_to_one_witness:
  "mc_reachable chain_env const_rng (1 / 10)
      \<lparr>mc_policy = [[1 / 2, 1 / 2], [19 / 20, 1 / 20], [1 / 2, 1 / 2]],
       mc_Q = [[0, 0], [1, 0], [0, 0]], mc_rewards = [[0, 0], [1, 0], [0, 0]],
       mc_visits = [[0, 0], [1, 0], [0, 0]], mc_G = 1, mc_gen = ()\<rparr> \<and>
   sum_list [19 / 20, 1 / 20 :: real] = 1 \<and>
   monte_carlo_e_soft chain_env const_rng 1 (1 / 10) 0 ()
     = Some (Inr ([[19 / 20, 1 / 20], [19 / 20, 1 / 20], [1 / 2, 1 / 2]], 2, ())) \<and>
   sum_list ([[19 / 20, 1 / 20], [19 / 20, 1 / 20], [1 / 2, 1 / 2 :: real]] ! 0) = 1 \<and>
   sum_list ([[19 / 20, 1 / 20], [19 / 20, 1 / 20], [1 / 2, 1 / 2 :: real]] ! 2) = 1"
proof -
  let ?st = "\<lparr>mc_policy = [[1 / 2, 1 / 2], [19 / 20, 1 / 20], [1 / 2, 1 / 2]],
       mc_Q = [[0, 0], [1, 0], [0, 0]], mc_rewards = [[0, 0], [1, 0], [0, 0]],
       mc_visits = [[0, 0], [1, 0], [0, 0]], mc_G = 1, mc_gen = ()\<rparr>"
  have reach: "mc_reachable chain_env const_rng (1 / 10) ?st"
    by (rule mc_reachable.visit[OF mc_reachable.init[OF chain_mc_init] chain_visit1])
  have "\<forall>row \<in> set (mc_policy ?st). sum_list row = 1"
    by (rule mp[OF e_soft_rows_sum_to_one[THEN conjunct1] reach])
  then have a: "sum_list [19 / 20, 1 / 20 :: real] = 1" by simp
  have "\<forall>row \<in> set [[19 / 20, 1 / 20], [19 / 20, 1 / 20], [1 / 2, 1 / 2 :: real]]. sum_list row = 1"
    by (rule mp[OF e_soft_rows_sum_to_one[THEN conjunct2] chain_fit])
  then have b: "sum_list ([[19 / 20, 1 / 20], [19 / 20, 1 / 20], [1 / 2, 1 / 2 :: real]] ! 0) = 1"
    and c: "sum_list ([[19 / 20, 1 / 20], [19 / 20, 1 / 20], [1 / 2, 1 / 2 :: real]] ! 2) = 1"
    by simp_all
  show ?thesis by (intro conjI reach a b c chain_fit)
qed

text \<open>
  C5, as the code has it. In the fit of the epsilon-soft policy the greedy choice draws a
  uniform index into the list of all maximisers of the row (each listed once, in
  increasing order) and returns the maximiser at that index: the action attains the
  maximum of \<open>Q[s,:]\<close>, and every maximiser is the answer to exactly one value of the
  draw. In \<open>q_step\<close> the action is the first index that maximises the row with the noise
  added, \<open>Q[s,:] + sigma * noise\<close>.
\<close>

theorem greedy_selection:
  "(greedy_choice rng g row = Inr (a, g') \<longrightarrow>
      row \<noteq> [] \<and>
      a = np_where_eq row (Max (set row)) !
            fst (randint rng g (length (np_where_eq row (Max (set row))))) \<and>
      (rng_ok rng \<longrightarrow> a < length row \<and> row ! a = Max (set row))) \<and>
   (row \<noteq> [] \<longrightarrow>
      np_where_eq row (Max (set row)) \<noteq> [] \<and>
      distinct (np_where_eq row (Max (set row))) \<and>
      sorted (np_where_eq row (Max (set row))) \<and>
      set (np_where_eq row (Max (set row))) = {j. j < length row \<and> row ! j = Max (set row)}) \<and>
   (q_select Q env rng sigma s g = Inr (b, g'') \<longrightarrow>
      (\<exists>noise noisy.
          draws (randn rng) (nA env) g = (noise, g'') \<and> s < length Q \<and>
          np_add (Q ! s) (map (\<lambda>z. z * sigma) noise) = Inr noisy \<and>
          b < length noisy \<and> noisy ! b = Max (set noisy) \<and> (\<forall>j<b. noisy ! j < noisy ! b)))"
proof (intro conjI impI)
  assume gc: "greedy_choice rng g row = Inr (a, g')"
  from greedy_choice_Inr[OF gc] show "row \<noteq> []" by simp
  from greedy_choice_Inr[OF gc]
  show "a = np_where_eq row (Max (set row)) !
            fst (randint rng g (length (np_where_eq row (Max (set row)))))" by simp
next
  assume gc: "greedy_choice rng g row = Inr (a, g')" and ok: "rng_ok rng"
  let ?c = "np_where_eq row (Max (set row))"
  from greedy_choice_Inr[OF gc] have ne: "row \<noteq> []" and
    a: "a = ?c ! fst (randint rng g (length ?c))" by simp_all
  have "0 < length ?c" using np_where_eq_max[OF ne] by simp
  then have "fst (randint rng g (length ?c)) < length ?c"
    using ok by (simp add: rng_ok_def)
  then have "a \<in> set ?c" unfolding a by (rule nth_mem)
  then show "a < length row" and "row ! a = Max (set row)"
    by (simp_all add: np_where_eq_set)
next
  assume "row \<noteq> []"
  then show "np_where_eq row (Max (set row)) \<noteq> []" by (rule np_where_eq_max)
next
  show "distinct (np_where_eq row (Max (set row)))" by (rule np_where_eq_distinct)
  show "sorted (np_where_eq row (Max (set row)))" by (rule np_where_eq_sorted)
  show "set (np_where_eq row (Max (set row))) = {j. j < length row \<and> row ! j = Max (set row)}"
    by (rule np_where_eq_set)
next
  assume "q_select Q env rng sigma s g = Inr (b, g'')"
  then obtain row' noise noisy where
    r: "np_row Q s = Inr row'" and
    d: "draws (randn rng) (nA env) g = (noise, g'')" and
    n: "np_add row' (map (\<lambda>z. z * sigma) noise) = Inr noisy" and
    am: "np_argmax noisy = Inr b"
    by (auto simp: q_select_def dest!: bindE_Inr split: prod.splits)
  from np_row_Inr[OF r] np_argmax_Inr[OF am] d n
  show "\<exists>noise noisy.
          draws (randn rng) (nA env) g = (noise, g'') \<and> s < length Q \<and>
          np_add (Q ! s) (map (\<lambda>z. z * sigma) noise) = Inr noisy \<and>
          b < length noisy \<and> noisy ! b = Max (set noisy) \<and> (\<forall>j<b. noisy ! j < noisy ! b)"
    by blast
qed

theorem greedy_selection_witness:
  "greedy_choice const_rng () [1, 3, 3] = Inr (1, ()) \<and> rng_ok const_rng \<and>
   [1, 3, 3 :: real] ! 1 = Max (set [1, 3, 3]) \<and>
   set (np_where_eq [1, 3, 3] (Max (set [1, 3, 3])))
     = {j. j < length [1, 3, 3 :: real] \<and> [1, 3, 3 :: real] ! j = Max (set [1, 3, 3])} \<and>
   np_where_eq [1, 3, 3] (Max (set [1, 3, 3])) = [1, 2] \<and>
   q_select [[1, 0], [0, 0], [0, 0]] chain_env counter_rng 2 0 0 = Inr (1, 2) \<and>
   (\<exists>noise noisy.
      draws (randn counter_rng) (nA chain_env) 0 = (noise, 2) \<and>
      np_add ([[1, 0], [0, 0], [0, 0]] ! 0) (map (\<lambda>z. z * 2) noise) = Inr noisy \<and>
      noisy ! 1 = Max (set noisy))"
proof -
  note g1 = greedy_selection[where rng = const_rng and g = "()" and row = "[1, 3, 3]" and a = 1
      and g' = "()"]
  note g2 = greedy_selection[where rng = counter_rng and row = "[1, 3, 3]"
      and Q = "[[1, 0], [0, 0], [0, 0]]" and env = chain_env and sigma = 2 and s = 0 and g = 0
      and b = 1 and g'' = 2]
  have a: "[1, 3, 3 :: real] ! 1 = Max (set [1, 3, 3])"
    using mp[OF g1[THEN conjunct1] greedy_tie, THEN conjunct2, THEN conjunct2, THEN mp,
        OF const_rng_ok] by (rule conjunct2)
  have ne: "[1, 3, 3 :: real] \<noteq> []" by simp
  have b: "set (np_where_eq [1, 3, 3] (Max (set [1, 3, 3])))
     = {j. j < length [1, 3, 3 :: real] \<and> [1, 3, 3 :: real] ! j = Max (set [1, 3, 3])}"
    using mp[OF g1[THEN conjunct2, THEN conjunct1] ne] by (elim conjE)
  have c: "np_where_eq [1, 3, 3 :: real] (Max (set [1, 3, 3])) = [1, 2]"
    by (simp add: np_where_eq_def)
  have d: "\<exists>noise noisy.
      draws (randn counter_rng) (nA chain_env) 0 = (noise, 2) \<and>
      np_add ([[1, 0], [0, 0], [0, 0]] ! 0) (map (\<lambda>z. z * 2) noise) = Inr noisy \<and>
      noisy ! 1 = Max (set noisy)"
    using mp[OF g2[THEN conjunct2, THEN conjunct2] noisy_select] by (elim exE conjE) blast
  show ?thesis
    by (intro conjI greedy_tie const_rng_ok a b c d noisy_select)
qed

text \<open>
  The claim as stated fails for \<open>q_step\<close>: with noise the selected action need not attain
  the maximum of \<open>Q[s,:]\<close>, and without noise a tie is always resolved to the lowest
  index.
\<close>

theorem greedy_selection_counterexample:
  "q_select [[1, 0], [0, 0], [0, 0]] chain_env counter_rng 2 0 0 = Inr (1, 2) \<and>
   [[1, 0], [0, 0], [0, 0 :: real]] ! 0 ! 1 < Max (set ([[1, 0], [0, 0], [0, 0]] ! 0)) \<and>
   (\<forall>g. q_select [[0, 0], [0, 0], [0, 0]] chain_env counter_rng 0 0 g = Inr (0, Suc (Suc g)))"
  using noisy_select first_select by simp

section \<open>UCB: the visit counts\<close>

lemma bonus_const: "2 * ln (1 / (1 / exp 4)) = (8::real)"
  by simp

lemma expl_bonus_ok:
  assumes "\<forall>v \<in> set visits. 1 \<le> v"
  shows "expl_bonus visits (1 / exp 4) = Inr (map (\<lambda>v. sqrt (8 / v)) visits)"
proof -
  have pos: "\<not> (1 / exp (4::real) \<le> 0)" by (simp add: not_le)
  have "\<forall>v \<in> set visits. \<not> (v = 0 \<or> 8 / v < 0)"
  proof
    fix v assume "v \<in> set visits"
    then have "1 \<le> v" using assms by simp
    then show "\<not> (v = 0 \<or> 8 / v < 0)" by (simp add: not_less)
  qed
  then show ?thesis
    unfolding expl_bonus_def bonus_const using pos by auto
qed

lemma np_argmax_total: "xs \<noteq> [] \<Longrightarrow> \<exists>a. np_argmax xs = Inr a"
  by (cases xs) (simp_all add: np_argmax_def)

lemma ucb_round_ok:
  assumes mus: "length mus = 2" and inv: "ucb_inv (visits, rewards, trace_a, g)"
  shows "\<exists>a r g'. a < 2 \<and>
           ucb_round rng mus (visits, rewards, trace_a, g)
             = Inr (visits[a := visits ! a + 1], rewards[a := rewards ! a + r], trace_a @ [a], g')"
proof -
  from inv have lv: "length visits = 2" and lr: "length rewards = 2" and
    cnt: "\<forall>a<2. visits ! a = 1 + real (count_list trace_a a)"
    by (simp_all add: ucb_inv_def)
  have ge1: "\<forall>v \<in> set visits. 1 \<le> v"
  proof
    fix v assume "v \<in> set visits"
    then obtain a where "a < 2" "v = visits ! a" using lv by (auto simp: in_set_conv_nth)
    then show "1 \<le> v" using cnt by simp
  qed
  then have nz: "\<not> (\<exists>p \<in> set (zip rewards visits). snd p = 0)"
    by (fastforce dest: set_zip_rightD)
  let ?means = "map (\<lambda>(x, y). x / y) (zip rewards visits)"
  let ?bonus = "map (\<lambda>v. sqrt (8 / v)) visits"
  let ?kpi = "map (\<lambda>(x, y). x + y) (zip ?means ?bonus)"
  have d: "np_divide rewards visits = Inr ?means"
    using lv lr nz by (simp add: np_divide_def np_broadcast_def bindE_def)
  have b: "expl_bonus visits (1 / exp 4) = Inr ?bonus" using ge1 by (rule expl_bonus_ok)
  have k: "np_add ?means ?bonus = Inr ?kpi"
    using lv lr by (simp add: np_add_def np_broadcast_def bindE_def)
  have lk: "length ?kpi = 2" using lv lr by simp
  then have "?kpi \<noteq> []" by auto
  from np_argmax_total[OF this] obtain a where a: "np_argmax ?kpi = Inr a" by blast
  have "a < length ?kpi" using np_argmax_Inr[OF a] by (rule conjunct1)
  then have a2: "a < 2" unfolding lk .
  obtain r g' where n: "normal rng g (mus ! a) = (r, g')" by (cases "normal rng g (mus ! a)")
  have "ucb_round rng mus (visits, rewards, trace_a, g)
             = Inr (visits[a := visits ! a + 1], rewards[a := rewards ! a + r], trace_a @ [a], g')"
    using d b k a a2 mus lv lr n
    by (simp add: ucb_round_def bindE_def py_index_def np_add_at_def)
  then show ?thesis using a2 by blast
qed

lemma ucb_round_inv:
  assumes mus: "length mus = 2" and inv: "ucb_inv st"
  shows "\<exists>st'. ucb_round rng mus st = Inr st' \<and> ucb_inv st' \<and>
           length (fst (snd (snd st'))) = Suc (length (fst (snd (snd st))))"
proof -
  obtain visits rewards trace_a g where st: "st = (visits, rewards, trace_a, g)"
    by (cases st) auto
  from ucb_round_ok[OF mus inv[unfolded st], of rng] obtain a r g' where
    a: "a < 2" and
    step: "ucb_round rng mus st
             = Inr (visits[a := visits ! a + 1], rewards[a := rewards ! a + r], trace_a @ [a], g')"
    unfolding st by blast
  from inv have lv: "length visits = 2" and lr: "length rewards = 2" and
    cnt: "\<forall>a<2. visits ! a = 1 + real (count_list trace_a a)"
    by (simp_all add: ucb_inv_def st)
  have "ucb_inv (visits[a := visits ! a + 1], rewards[a := rewards ! a + r], trace_a @ [a], g')"
    using lv lr cnt a by (auto simp: ucb_inv_def nth_list_update)
  then show ?thesis using step by (simp add: st)
qed

lemma ucb_rounds_inv:
  assumes mus: "length mus = 2"
  shows "ucb_inv st \<Longrightarrow>
         \<exists>st'. rounds (ucb_round rng mus) n st = Inr st' \<and> ucb_inv st' \<and>
           length (fst (snd (snd st'))) = length (fst (snd (snd st))) + n"
proof (induction n arbitrary: st)
  case 0
  then show ?case by simp
next
  case (Suc n)
  from ucb_round_inv[OF mus Suc.prems, of rng] obtain st1 where
    s1: "ucb_round rng mus st = Inr st1" and i1: "ucb_inv st1" and
    l1: "length (fst (snd (snd st1))) = Suc (length (fst (snd (snd st))))" by blast
  from Suc.IH[OF i1] obtain st' where
    "rounds (ucb_round rng mus) n st1 = Inr st'" "ucb_inv st'"
    "length (fst (snd (snd st'))) = length (fst (snd (snd st1))) + n" by blast
  then show ?case using s1 l1 by (simp add: bindE_def)
qed

lemma sqrt8_le3: "sqrt 8 \<le> 3"
proof -
  have "sqrt 8 \<le> sqrt 9" by (rule real_sqrt_le_mono) simp
  also have "sqrt 9 = 3" by (rule real_sqrt_unique) (simp_all add: power2_eq_square)
  finally show ?thesis .
qed

lemma ucb_first_round:
  "ucb_round counter_rng [1, 11 / 10] ([1, 1], [0, 0], [], Suc 0) = Inr ([2, 1], [2, 0], [0], 2)"
proof -
  have b: "expl_bonus [1, 1] (1 / exp 4) = Inr [sqrt 8, sqrt 8]"
    using expl_bonus_ok[of "[1, 1]"] by simp
  show ?thesis
    by (simp add: ucb_round_def b bindE_def np_divide_def np_add_def np_broadcast_def
          np_argmax_def py_index_def np_add_at_def counter_rng_def)
qed

lemma ucb_second_round:
  "ucb_round counter_rng [1, 11 / 10] ([2, 1], [2, 0], [0], 2) = Inr ([3, 1], [5, 0], [0, 0], 3)"
proof -
  have "expl_bonus [2, 1] (1 / exp 4) = Inr [sqrt (8 / 2), sqrt 8]"
    using expl_bonus_ok[of "[2, 1]"] by simp
  moreover have "sqrt (8 / 2) = (2::real)" by simp
  ultimately have b: "expl_bonus [2, 1] (1 / exp 4) = Inr [2, sqrt 8]" by simp
  have m: "max (sqrt 8) 3 = 3" "max 3 (sqrt 8) = 3" using sqrt8_le3 by (simp_all add: max_def)
  show ?thesis
    by (simp add: ucb_round_def b bindE_def np_divide_def np_add_def np_broadcast_def
          np_argmax_def m py_index_def np_add_at_def counter_rng_def)
qed

lemma ucb_two_rounds:
  "ucb counter_rng [1, 11 / 10] 2 1 = Inr ([3, 1], [5, 0], [0, 0], 3)"
  by (simp add: ucb_def numeral_2_eq_2 ucb_first_round[unfolded numeral_2_eq_2]
        ucb_second_round[unfolded numeral_2_eq_2] bindE_def)

text \<open>
  C6, as the code has it. The UCB loop starts both visit counts at 1 and only increments
  them: the count of an arm is 1 plus the number of its pulls, so after any number of
  rounds every count is at least 1, every round divides by a count that is not zero, and
  the run returns (the two means of the notebook given). No arm is given priority for a
  zero count: no count is ever zero.
\<close>

theorem ucb_counts_stay_positive:
  assumes "length mus = 2"
  shows "\<exists>visits rewards trace_a g'.
           ucb rng mus N g = Inr (visits, rewards, trace_a, g') \<and>
           length visits = 2 \<and> length trace_a = N \<and>
           (\<forall>a<2. visits ! a = 1 + real (count_list trace_a a)) \<and>
           (\<forall>v \<in> set visits. 1 \<le> v)"
proof -
  have "ucb_inv ([1, 1], [0, 0], [], g)"
    by (simp add: ucb_inv_def less_Suc_eq numeral_2_eq_2)
  from ucb_rounds_inv[OF assms this, of rng N] obtain visits rewards trace_a g' where
    run: "ucb rng mus N g = Inr (visits, rewards, trace_a, g')" and
    inv: "ucb_inv (visits, rewards, trace_a, g')" and
    len: "length trace_a = N"
    by (auto simp: ucb_def)
  from inv have lv: "length visits = 2" and
    cnt: "\<forall>a<2. visits ! a = 1 + real (count_list trace_a a)"
    by (simp_all add: ucb_inv_def)
  have "\<forall>v \<in> set visits. 1 \<le> v"
  proof
    fix v assume "v \<in> set visits"
    then obtain a where "a < 2" "v = visits ! a" using lv by (auto simp: in_set_conv_nth)
    then show "1 \<le> v" using cnt by simp
  qed
  then show ?thesis using run lv len cnt by blast
qed

theorem ucb_counts_stay_positive_witness:
  "length [1, 11 / 10 :: real] = 2 \<and>
   ucb counter_rng [1, 11 / 10] 2 1 = Inr ([3, 1], [5, 0], [0, 0], 3) \<and>
   (\<exists>visits rewards trace_a g'.
      ucb counter_rng [1, 11 / 10] 2 1 = Inr (visits, rewards, trace_a, g') \<and>
      length trace_a = 2 \<and> (\<forall>v \<in> set visits. 1 \<le> v))"
proof -
  have l: "length [1, 11 / 10 :: real] = 2" by simp
  have "\<exists>visits rewards trace_a g'.
      ucb counter_rng [1, 11 / 10] 2 1 = Inr (visits, rewards, trace_a, g') \<and>
      length trace_a = 2 \<and> (\<forall>v \<in> set visits. 1 \<le> v)"
    using ucb_counts_stay_positive[OF l, of counter_rng 2 1] by blast
  then show ?thesis using l ucb_two_rounds by blast
qed

text \<open>
  The claim as stated fails: in a run of two rounds on the two arms, a first reward of 2
  on arm 0 keeps its index \<open>2 / 2 + sqrt (8 / 2) = 3\<close> above \<open>sqrt 8\<close>, the index of
  the arm never pulled, so arm 0 is pulled again and arm 1 is not sampled.
\<close>

theorem ucb_arm_unsampled_counterexample:
  "ucb counter_rng [1, 11 / 10] 2 1 = Inr ([3, 1], [5, 0], [0, 0], 3) \<and>
   (1::nat) \<notin> set [0, 0]"
  using ucb_two_rounds by simp

section \<open>Thompson sampling: one round\<close>




















end
